theory Spec2Isabelle
  imports Complex_Main "HOL-Library.Multiset" "HOL-Library.List_Lexorder" "HOL-Library.Log_Nat"
begin

section \<open>Orders table: the data model\<close>

text \<open>
  The source is one React component file, \<^verbatim>\<open>code-review-exercise-1.tsx\<close>: the hook
  \<^verbatim>\<open>useOrders\<close> (the order store) and the component \<^verbatim>\<open>OrdersTable\<close> (filter criteria,
  the memoised filter/sort pipeline and the memoised revenue sum).

  Conventions of the embedding.
  \<^item> A JavaScript \<^verbatim>\<open>number\<close> is a \<open>JSNumber\<close>: \<^verbatim>\<open>NaN\<close>, the two infinities, or a finite
    value, which is a rational number. Arithmetic and \<^verbatim>\<open>Number(...)\<close> round their exact
    result to the nearest IEEE 754 double, ties to even, with overflow to an infinity
    and underflow to 0 (\<open>round_double\<close>). The two zeros of IEEE 754 are not told apart:
    no operation of this program depends on the sign of a zero.
  \<^item> A JavaScript string is a \<^typ>\<open>string\<close>; a \<^typ>\<open>char\<close> stands for a UTF-16 code unit
    below 256, and strings with larger code units are outside the model.
  \<^item> The record fields \<open>orderId\<close> and \<open>orderTotal\<close> are the source's \<^verbatim>\<open>id\<close> and
    \<^verbatim>\<open>total\<close>, renamed because \<open>id\<close> and \<open>total\<close> are constants of HOL.
\<close>

datatype OrderStatus = pending | paid | shipped | cancelled

datatype JSNumber = NaN | NegInfinity | Finite rat | PosInfinity

record Order =
  orderId :: int
  customerName :: string
  orderTotal :: JSNumber
  status :: OrderStatus
  createdAt :: string

text \<open>\<^verbatim>\<open>OrderStatus | "all"\<close>, the type of the \<^verbatim>\<open>statusFilter\<close> state.\<close>

datatype StatusFilter = AllStatuses | Only OrderStatus

text \<open>\<^verbatim>\<open>number | string\<close>, the type of the \<^verbatim>\<open>minTotal\<close> state.\<close>

datatype NumOrStr = Num JSNumber | Str string

section \<open>JavaScript primitives the pipeline uses\<close>

subsection \<open>Truthiness\<close>

text \<open>
  \<^verbatim>\<open>search && ...\<close> with \<^verbatim>\<open>search: string | undefined\<close>: \<^verbatim>\<open>undefined\<close> and the empty string
  are falsy. \<^verbatim>\<open>minTotal && ...\<close> with \<^verbatim>\<open>minTotal: number | string\<close>: the numbers 0 and
  \<^verbatim>\<open>NaN\<close> and the empty string are falsy; every other string is truthy, the string
  \<^verbatim>\<open>"0"\<close> included.
\<close>

fun truthy_search :: "string option \<Rightarrow> bool" where
  "truthy_search None = False"
| "truthy_search (Some t) = (t \<noteq> [])"

fun truthy_minTotal :: "NumOrStr \<Rightarrow> bool" where
  "truthy_minTotal (Num n) = (n \<noteq> Finite 0 \<and> n \<noteq> NaN)"
| "truthy_minTotal (Str t) = (t \<noteq> [])"

subsection \<open>\<^verbatim>\<open>String.prototype.toLowerCase\<close> and \<^verbatim>\<open>String.prototype.includes\<close>\<close>

definition code_unit :: "char \<Rightarrow> nat" where
  "code_unit c = of_char c"

text \<open>Below 256 the letters with a lower-case form are A-Z and U+00C0..U+00DE without U+00D7.\<close>

definition lower_char :: "char \<Rightarrow> char" where
  "lower_char c =
     (if (65 \<le> code_unit c \<and> code_unit c \<le> 90) \<or>
         (192 \<le> code_unit c \<and> code_unit c \<le> 222 \<and> code_unit c \<noteq> 215)
      then char_of (code_unit c + 32) else c)"

definition toLowerCase :: "string \<Rightarrow> string" where
  "toLowerCase s = map lower_char s"

fun startsWith :: "string \<Rightarrow> string \<Rightarrow> bool" where
  "startsWith s [] = True"
| "startsWith [] (p # ps) = False"
| "startsWith (c # cs) (p # ps) = (c = p \<and> startsWith cs ps)"

fun str_includes :: "string \<Rightarrow> string \<Rightarrow> bool" where
  "str_includes [] p = startsWith [] p"
| "str_includes (c # cs) p = (startsWith (c # cs) p \<or> str_includes cs p)"

subsection \<open>Comparison of strings: \<^verbatim>\<open>a > b\<close>\<close>

text \<open>Code unit by code unit; a proper prefix is the smaller string.\<close>

fun str_gt :: "string \<Rightarrow> string \<Rightarrow> bool" where
  "str_gt [] b = False"
| "str_gt (x # xs) [] = True"
| "str_gt (x # xs) (y # ys) =
     (if code_unit y < code_unit x then True
      else if code_unit x < code_unit y then False
      else str_gt xs ys)"

subsection \<open>Rounding to a double\<close>

text \<open>
  IEEE 754 binary64, round to nearest, ties to even. A positive \<open>x\<close> with binary
  exponent \<open>e\<close> (\<open>2 ^ e \<le> x < 2 ^ (e + 1)\<close>, taken at least -1022, where the subnormal
  numbers begin, and at most 1023) is rounded to a multiple of \<open>2 ^ (e - 52)\<close>; a
  result of \<open>2 ^ 1024\<close> or more is an infinity.
\<close>

definition pow2 :: "int \<Rightarrow> rat" where
  "pow2 e = (if 0 \<le> e then 2 ^ nat e else 1 / 2 ^ nat (- e))"

definition round_half_even :: "rat \<Rightarrow> int" where
  "round_half_even x =
     (if x - of_int \<lfloor>x\<rfloor> < 1 / 2 then \<lfloor>x\<rfloor>
      else if 1 / 2 < x - of_int \<lfloor>x\<rfloor> then \<lfloor>x\<rfloor> + 1
      else if even \<lfloor>x\<rfloor> then \<lfloor>x\<rfloor> else \<lfloor>x\<rfloor> + 1)"

text \<open>The binary exponent of a positive rational, from the bit lengths of its numerator
  and denominator.\<close>

definition binary_exponent :: "rat \<Rightarrow> int" where
  "binary_exponent x =
     (let d = bitlen (fst (quotient_of x)) - bitlen (snd (quotient_of x))
      in if pow2 d \<le> x then d else d - 1)"

definition double_exponent :: "rat \<Rightarrow> int" where
  "double_exponent x = min 1023 (max (- 1022) (binary_exponent x))"

definition double_mantissa :: "rat \<Rightarrow> int" where
  "double_mantissa x = round_half_even (x / pow2 (double_exponent x - 52))"

definition round_double :: "rat \<Rightarrow> JSNumber" where
  "round_double x =
     (if x = 0 then Finite 0
      else if double_exponent \<bar>x\<bar> = 1023 \<and> 2 ^ 53 \<le> double_mantissa \<bar>x\<bar>
        then (if 0 < x then PosInfinity else NegInfinity)
      else if 0 < x
        then Finite (of_int (double_mantissa \<bar>x\<bar>) * pow2 (double_exponent \<bar>x\<bar> - 52))
      else Finite (- (of_int (double_mantissa \<bar>x\<bar>) * pow2 (double_exponent \<bar>x\<bar> - 52))))"

text \<open>\<^verbatim>\<open>x + y\<close> on numbers.\<close>

fun js_add :: "JSNumber \<Rightarrow> JSNumber \<Rightarrow> JSNumber" where
  "js_add NaN y = NaN"
| "js_add x NaN = NaN"
| "js_add (Finite a) (Finite b) = round_double (a + b)"
| "js_add PosInfinity NegInfinity = NaN"
| "js_add NegInfinity PosInfinity = NaN"
| "js_add PosInfinity y = PosInfinity"
| "js_add NegInfinity y = NegInfinity"
| "js_add (Finite a) y = y"

subsection \<open>\<^verbatim>\<open>Number(value)\<close>\<close>

text \<open>
  \<^verbatim>\<open>Number\<close> applied to a string is ECMAScript's StringToNumber: white space is trimmed,
  the empty string is 0, then a binary, octal or hexadecimal literal without sign, or a
  signed decimal literal (\<^verbatim>\<open>Infinity\<close>, digits with an optional fraction and exponent);
  anything else is \<^verbatim>\<open>NaN\<close>. The exact value of a literal is rounded to the nearest
  double, which is what V8 does (ECMAScript allows an implementation to look at the
  first 20 significant digits only).
\<close>

definition isWhiteSpace :: "char \<Rightarrow> bool" where
  "isWhiteSpace c = (code_unit c \<in> {9, 10, 11, 12, 13, 32, 160})"

definition trim :: "string \<Rightarrow> string" where
  "trim s = rev (dropWhile isWhiteSpace (rev (dropWhile isWhiteSpace s)))"

definition isDigit :: "char \<Rightarrow> bool" where
  "isDigit c = (48 \<le> code_unit c \<and> code_unit c \<le> 57)"

definition hexVal :: "char \<Rightarrow> nat option" where
  "hexVal c =
     (if 48 \<le> code_unit c \<and> code_unit c \<le> 57 then Some (code_unit c - 48)
      else if 97 \<le> code_unit c \<and> code_unit c \<le> 102 then Some (code_unit c - 87)
      else if 65 \<le> code_unit c \<and> code_unit c \<le> 70 then Some (code_unit c - 55)
      else None)"

text \<open>The value of a non-empty digit string in a base, \<open>None\<close> when a char is no digit of it.\<close>

fun digitsIn :: "nat \<Rightarrow> nat \<Rightarrow> string \<Rightarrow> nat option" where
  "digitsIn base acc [] = Some acc"
| "digitsIn base acc (c # cs) =
     (case hexVal c of
        None \<Rightarrow> None
      | Some d \<Rightarrow> if d < base then digitsIn base (acc * base + d) cs else None)"

definition digitString :: "nat \<Rightarrow> string \<Rightarrow> nat option" where
  "digitString base ds = (if ds = [] then None else digitsIn base 0 ds)"

definition nonDecimalLiteral :: "string \<Rightarrow> nat option" where
  "nonDecimalLiteral s =
     (case s of
        c0 # c1 # ds \<Rightarrow>
          if c0 \<noteq> CHR ''0'' then None
          else if c1 = CHR ''x'' \<or> c1 = CHR ''X'' then digitString 16 ds
          else if c1 = CHR ''o'' \<or> c1 = CHR ''O'' then digitString 8 ds
          else if c1 = CHR ''b'' \<or> c1 = CHR ''B'' then digitString 2 ds
          else None
      | _ \<Rightarrow> None)"

definition signedInteger :: "string \<Rightarrow> int option" where
  "signedInteger s =
     (case s of
        [] \<Rightarrow> None
      | c # cs \<Rightarrow>
          if c = CHR ''+'' then map_option int (digitString 10 cs)
          else if c = CHR ''-'' then map_option (\<lambda>n. - int n) (digitString 10 cs)
          else map_option int (digitString 10 s))"

definition exponentPart :: "string \<Rightarrow> int option" where
  "exponentPart s =
     (case s of
        [] \<Rightarrow> Some 0
      | c # cs \<Rightarrow> if c = CHR ''e'' \<or> c = CHR ''E'' then signedInteger cs else None)"

definition scale10 :: "rat \<Rightarrow> int \<Rightarrow> rat" where
  "scale10 m e = (if 0 \<le> e then m * 10 ^ nat e else m / 10 ^ nat (- e))"

definition unsignedDecimal :: "string \<Rightarrow> JSNumber" where
  "unsignedDecimal s =
     (let ip = takeWhile isDigit s;
          r1 = dropWhile isDigit s;
          dot = (r1 \<noteq> [] \<and> hd r1 = CHR ''.'');
          fp = (if dot then takeWhile isDigit (tl r1) else []);
          r2 = (if dot then dropWhile isDigit (tl r1) else r1)
      in if ip = [] \<and> fp = [] then NaN
         else (case (digitString 10 (ip @ fp), exponentPart r2) of
                 (Some m, Some e) \<Rightarrow> round_double (scale10 (of_nat m) (e - int (length fp)))
               | _ \<Rightarrow> NaN))"

definition strUnsigned :: "string \<Rightarrow> JSNumber" where
  "strUnsigned s = (if s = ''Infinity'' then PosInfinity else unsignedDecimal s)"

fun negate :: "JSNumber \<Rightarrow> JSNumber" where
  "negate NaN = NaN"
| "negate NegInfinity = PosInfinity"
| "negate (Finite r) = Finite (- r)"
| "negate PosInfinity = NegInfinity"

definition StringToNumber :: "string \<Rightarrow> JSNumber" where
  "StringToNumber str =
     (let s = trim str in
      if s = [] then Finite 0
      else (case nonDecimalLiteral s of
              Some n \<Rightarrow> round_double (of_nat n)
            | None \<Rightarrow>
                if hd s = CHR ''+'' then strUnsigned (tl s)
                else if hd s = CHR ''-'' then negate (strUnsigned (tl s))
                else strUnsigned s))"

text \<open>\<^verbatim>\<open>Number(minTotal)\<close>: the identity on a number.\<close>

fun Number :: "NumOrStr \<Rightarrow> JSNumber" where
  "Number (Num n) = n"
| "Number (Str t) = StringToNumber t"

fun isNaN :: "JSNumber \<Rightarrow> bool" where
  "isNaN NaN = True"
| "isNaN _ = False"

text \<open>\<^verbatim>\<open>x < y\<close> on numbers: false when either side is \<^verbatim>\<open>NaN\<close>.\<close>

fun js_lt :: "JSNumber \<Rightarrow> JSNumber \<Rightarrow> bool" where
  "js_lt NaN y = False"
| "js_lt x NaN = False"
| "js_lt (Finite a) (Finite b) = (a < b)"
| "js_lt PosInfinity y = False"
| "js_lt x PosInfinity = True"
| "js_lt x NegInfinity = False"
| "js_lt NegInfinity y = True"

subsection \<open>\<^verbatim>\<open>Array.prototype.sort(comparefn)\<close>\<close>

text \<open>
  The comparator of the source never returns 0, so it is not a consistent comparator in
  the sense of ECMAScript, which then leaves the order to the implementation. The model
  is the insertion sort V8 runs on short arrays: each element in turn, from the left,
  is inserted into the sorted prefix before the first element \<open>y\<close> with
  \<open>comparefn x y < 0\<close>; only the sign of the comparator's result is consulted.
\<close>

fun insert_by :: "('a \<Rightarrow> 'a \<Rightarrow> int) \<Rightarrow> 'a \<Rightarrow> 'a list \<Rightarrow> 'a list" where
  "insert_by comparefn x [] = [x]"
| "insert_by comparefn x (y # ys) =
     (if comparefn x y < 0 then x # y # ys else y # insert_by comparefn x ys)"

definition array_sort :: "('a \<Rightarrow> 'a \<Rightarrow> int) \<Rightarrow> 'a list \<Rightarrow> 'a list" where
  "array_sort comparefn xs = foldl (\<lambda>sorted_prefix x. insert_by comparefn x sorted_prefix) [] xs"

section \<open>The query pipeline of \<^verbatim>\<open>OrdersTable\<close>\<close>

text \<open>The callback of \<^verbatim>\<open>orders.filter\<close>, with its three early returns in the source's order.\<close>

definition filterCallback :: "string option \<Rightarrow> StatusFilter \<Rightarrow> NumOrStr \<Rightarrow> Order \<Rightarrow> bool" where
  "filterCallback search statusFilter minTotal order =
     (if truthy_search search \<and>
         \<not> str_includes (toLowerCase (customerName order))
              (toLowerCase (case search of Some t \<Rightarrow> t | None \<Rightarrow> []))
      then False
      else if statusFilter \<noteq> AllStatuses \<and> Only (status order) \<noteq> statusFilter then False
      else if truthy_minTotal minTotal \<and> js_lt (orderTotal order) (Number minTotal)
      then False
      else True)"

text \<open>The comparator: \<^verbatim>\<open>a.createdAt > b.createdAt ? -1 : 1\<close>.\<close>

definition sortCallback :: "Order \<Rightarrow> Order \<Rightarrow> int" where
  "sortCallback a b = (if str_gt (createdAt a) (createdAt b) then - 1 else 1)"

text \<open>
  The body of the first \<^verbatim>\<open>useMemo\<close>: \<^verbatim>\<open>orders.filter(...).sort(...)\<close>. \<^verbatim>\<open>filter\<close> returns a
  new array, which \<^verbatim>\<open>sort\<close> sorts in place and returns; \<^verbatim>\<open>orders\<close> is not changed.
\<close>

definition computeFilteredOrders ::
  "Order list \<Rightarrow> string option \<Rightarrow> StatusFilter \<Rightarrow> NumOrStr \<Rightarrow> Order list" where
  "computeFilteredOrders orders search statusFilter minTotal =
     array_sort sortCallback (filter (filterCallback search statusFilter minTotal) orders)"

text \<open>The body of the second \<^verbatim>\<open>useMemo\<close>: \<^verbatim>\<open>filteredOrders.reduce((sum, order) => sum + order.total, 0)\<close>.\<close>

definition computeTotalRevenue :: "Order list \<Rightarrow> JSNumber" where
  "computeTotalRevenue filteredOrders =
     foldl (\<lambda>sum order. js_add sum (orderTotal order)) (Finite 0) filteredOrders"

section \<open>The component as a state machine\<close>

text \<open>
  One record holds every \<^verbatim>\<open>useState\<close> cell of \<^verbatim>\<open>useOrders\<close> and \<^verbatim>\<open>OrdersTable\<close>, the
  bookkeeping React keeps for \<^verbatim>\<open>useEffect\<close> and \<^verbatim>\<open>useMemo\<close>, and the environment (requests
  in flight, what \<^verbatim>\<open>console.error\<close> received).

  \<^verbatim>\<open>useMemo\<close> and React compare dependencies with \<^verbatim>\<open>Object.is\<close>, which on arrays is
  identity: every array the program creates gets a fresh reference number from
  \<open>next_ref\<close>. \<open>orders_ref\<close> is the identity of the array in \<open>orders\<close>, \<open>filtered_ref\<close>
  the identity of the array in \<open>filteredOrders\<close>. The three \<open>deps\<close> fields are the
  dependency values of the last run (\<open>None\<close> before the first render): \<^verbatim>\<open>[orders.length]\<close>
  for the effect, \<^verbatim>\<open>[orders]\<close> for the first memo, \<^verbatim>\<open>[filteredOrders]\<close> for the second.

  A request is named by its issue number: \<open>issued\<close> counts the calls of \<^verbatim>\<open>fetch\<close> so far.
\<close>

record State =
  orders :: "Order list"
  orders_ref :: nat
  loading :: bool
  error :: "string option"
  search :: "string option"
  statusFilter :: StatusFilter
  minTotal :: NumOrStr
  effect_deps :: "nat option"
  filtered_deps :: "nat option"
  filteredOrders :: "Order list"
  filtered_ref :: nat
  revenue_deps :: "nat option"
  totalRevenue :: JSNumber
  next_ref :: nat
  inflight :: "nat list"
  issued :: nat
  console :: "string list"

text \<open>The initial values of the \<^verbatim>\<open>useState\<close> calls; nothing rendered, nothing requested.\<close>

definition initial :: State where
  "initial =
     \<lparr>orders = [], orders_ref = 0, loading = False, error = None,
      search = None, statusFilter = AllStatuses, minTotal = Str [],
      effect_deps = None, filtered_deps = None, filteredOrders = [], filtered_ref = 0,
      revenue_deps = None, totalRevenue = Finite 0, next_ref = 1,
      inflight = [], issued = 0, console = []\<rparr>"

definition mounted :: "State \<Rightarrow> bool" where
  "mounted s = (effect_deps s \<noteq> None)"

subsection \<open>\<^verbatim>\<open>useOrders\<close>\<close>

text \<open>\<^verbatim>\<open>fetchOrders\<close> up to the call of \<^verbatim>\<open>fetch\<close>: \<^verbatim>\<open>setLoading(true)\<close> and one more request.\<close>

definition fetchOrders :: "State \<Rightarrow> State" where
  "fetchOrders s =
     s\<lparr>loading := True, inflight := inflight s @ [issued s], issued := Suc (issued s)\<rparr>"

text \<open>
  The callbacks of the promise chain. \<^verbatim>\<open>data\<close> is a newly parsed array, so it has a
  fresh identity. A rejection of \<^verbatim>\<open>fetch\<close> or of \<^verbatim>\<open>res.json()\<close> skips the second \<^verbatim>\<open>then\<close> and
  reaches \<^verbatim>\<open>catch\<close>; \<^verbatim>\<open>finally\<close> runs after either.
\<close>

definition onFulfilled :: "Order list \<Rightarrow> State \<Rightarrow> State" where
  "onFulfilled data s =
     s\<lparr>orders := data, orders_ref := next_ref s, next_ref := Suc (next_ref s), error := None\<rparr>"

definition onRejected :: "string \<Rightarrow> State \<Rightarrow> State" where
  "onRejected err s = s\<lparr>console := console s @ [err], error := Some ''Failed to load orders''\<rparr>"

definition onFinally :: "State \<Rightarrow> State" where
  "onFinally s = s\<lparr>loading := False\<rparr>"

datatype Outcome = Fulfilled "Order list" | Rejected string

fun settle :: "Outcome \<Rightarrow> State \<Rightarrow> State" where
  "settle (Fulfilled data) s = onFinally (onFulfilled data s)"
| "settle (Rejected err) s = onFinally (onRejected err s)"

text \<open>\<^verbatim>\<open>useEffect(() => { fetchOrders(); }, [orders.length])\<close>: runs after the first render and
  after a render in which \<^verbatim>\<open>orders.length\<close> differs from its value at the last run.\<close>

definition useEffect_fetchOrders :: "State \<Rightarrow> State" where
  "useEffect_fetchOrders s =
     (if effect_deps s = Some (length (orders s)) then s
      else fetchOrders (s\<lparr>effect_deps := Some (length (orders s))\<rparr>))"

subsection \<open>\<^verbatim>\<open>OrdersTable\<close>\<close>

text \<open>\<^verbatim>\<open>useMemo(() => orders.filter(...).sort(...), [orders])\<close>: recomputed, with the criteria
  of the current render, only when the identity of \<^verbatim>\<open>orders\<close> has changed.\<close>

definition useMemo_filteredOrders :: "State \<Rightarrow> State" where
  "useMemo_filteredOrders s =
     (if filtered_deps s = Some (orders_ref s) then s
      else s\<lparr>filteredOrders :=
                computeFilteredOrders (orders s) (search s) (statusFilter s) (minTotal s),
              filtered_ref := next_ref s, next_ref := Suc (next_ref s),
              filtered_deps := Some (orders_ref s)\<rparr>)"

text \<open>\<^verbatim>\<open>useMemo(() => filteredOrders.reduce(...), [filteredOrders])\<close>.\<close>

definition useMemo_totalRevenue :: "State \<Rightarrow> State" where
  "useMemo_totalRevenue s =
     (if revenue_deps s = Some (filtered_ref s) then s
      else s\<lparr>totalRevenue := computeTotalRevenue (filteredOrders s),
              revenue_deps := Some (filtered_ref s)\<rparr>)"

definition handleMinTotalChange :: "string \<Rightarrow> State \<Rightarrow> State" where
  "handleMinTotalChange v s =
     (if v = [] then s\<lparr>minTotal := Str []\<rparr>
      else if \<not> isNaN (Number (Str v)) then s\<lparr>minTotal := Str v\<rparr>
      else s)"

text \<open>
  One render of the component and the effects that follow it. The \<^verbatim>\<open>setLoading(true)\<close> of
  an effect causes one more render, in which no dependency has changed; it changes
  nothing, so one \<open>render\<close> per event is the whole reaction (\<open>render_idempotent\<close> below).
\<close>

definition render :: "State \<Rightarrow> State" where
  "render s = useEffect_fetchOrders (useMemo_totalRevenue (useMemo_filteredOrders s))"

text \<open>
  What can happen to the component: it is mounted; \<^verbatim>\<open>refresh()\<close> is called (the button
  that calls it is disabled while \<^verbatim>\<open>loading\<close>, the function itself has no guard); the
  request with a given number settles, all callbacks of its chain running before the
  next render; one of the three inputs changes. \<open>None\<close>: the event cannot happen in
  that state.
\<close>

datatype Event =
    Mount
  | Refresh
  | Settle nat Outcome
  | ChangeSearch string
  | ChangeStatusFilter StatusFilter
  | ChangeMinTotal string

fun step :: "Event \<Rightarrow> State \<Rightarrow> State option" where
  "step Mount s = (if mounted s then None else Some (render s))"
| "step Refresh s = (if mounted s then Some (render (fetchOrders s)) else None)"
| "step (Settle r outcome) s =
     (if r \<in> set (inflight s)
      then Some (render (settle outcome (s\<lparr>inflight := removeAll r (inflight s)\<rparr>)))
      else None)"
| "step (ChangeSearch v) s = (if mounted s then Some (render (s\<lparr>search := Some v\<rparr>)) else None)"
| "step (ChangeStatusFilter f) s =
     (if mounted s then Some (render (s\<lparr>statusFilter := f\<rparr>)) else None)"
| "step (ChangeMinTotal v) s =
     (if mounted s then Some (render (handleMinTotalChange v s)) else None)"

fun run :: "Event list \<Rightarrow> State \<Rightarrow> State option" where
  "run [] s = Some s"
| "run (e # es) s = (case step e s of None \<Rightarrow> None | Some s' \<Rightarrow> run es s')"

inductive reachable :: "State \<Rightarrow> bool" where
  reachable_initial: "reachable initial"
| reachable_step: "reachable s \<Longrightarrow> step e s = Some s' \<Longrightarrow> reachable s'"

subsection \<open>Sample data: the two orders of the specification's scenarios\<close>

definition alice :: Order where
  "alice = \<lparr>orderId = 1, customerName = ''Alice'', orderTotal = Finite 10, status = paid,
            createdAt = ''2024-01-01T00:00:00Z''\<rparr>"

definition bob :: Order where
  "bob = \<lparr>orderId = 2, customerName = ''Bob'', orderTotal = Finite 20, status = pending,
          createdAt = ''2024-01-02T00:00:00Z''\<rparr>"

text \<open>An order created at the same instant as \<open>alice\<close>.\<close>

definition carol :: Order where
  "carol = \<lparr>orderId = 3, customerName = ''Carol'', orderTotal = Finite 5, status = shipped,
            createdAt = ''2024-01-01T00:00:00Z''\<rparr>"

section \<open>The specification's words\<close>

text \<open>
  These definitions follow the specification, not the code; the theorems below compare
  them with the definitions above.
\<close>

subsection \<open>Case-insensitive substring match\<close>

text \<open>
  \<open>l\<close> is the small letter of the capital \<open>u\<close>: the capitals are A to Z and, above
  ASCII, U+00C0 to U+00DE without the multiplication sign; the small letter of a capital
  is 32 code units after it. Two characters are the same letter when they are equal or
  one is the small letter of the other. Some stretch of the customer name has to be the
  search text, letter by letter.
\<close>

definition small_letter_of :: "char \<Rightarrow> char \<Rightarrow> bool" where
  "small_letter_of u l =
     (((65 \<le> code_unit u \<and> code_unit u \<le> 90) \<or>
       (192 \<le> code_unit u \<and> code_unit u \<le> 222 \<and> code_unit u \<noteq> 215)) \<and>
      code_unit l = code_unit u + 32)"

definition same_letter :: "char \<Rightarrow> char \<Rightarrow> bool" where
  "same_letter a b = (a = b \<or> small_letter_of a b \<or> small_letter_of b a)"

definition same_ignoring_case :: "string \<Rightarrow> string \<Rightarrow> bool" where
  "same_ignoring_case a b = list_all2 same_letter a b"

definition ci_substring :: "string \<Rightarrow> string \<Rightarrow> bool" where
  "ci_substring needle hay =
     (\<exists>i \<in> {..length hay}. same_ignoring_case (take (length needle) (drop i hay)) needle)"

subsection \<open>Lexicographic order of strings\<close>

definition lex_less :: "string \<Rightarrow> string \<Rightarrow> bool" where
  "lex_less a b = ((a, b) \<in> lexord {(x, y). code_unit x < code_unit y})"

definition lex_le :: "string \<Rightarrow> string \<Rightarrow> bool" where
  "lex_le a b = (a = b \<or> lex_less a b)"

text \<open>Descending order of \<^verbatim>\<open>createdAt\<close>: no order is followed by a newer one.\<close>

definition newest_first :: "Order list \<Rightarrow> bool" where
  "newest_first xs = sorted_wrt (\<lambda>a b. lex_le (createdAt b) (createdAt a)) xs"

subsection \<open>The least total\<close>

text \<open>\<^verbatim>\<open>total >= minTotal\<close> as a comparison of numbers; nothing compares with \<^verbatim>\<open>NaN\<close>.\<close>

fun ge_number :: "JSNumber \<Rightarrow> JSNumber \<Rightarrow> bool" where
  "ge_number NaN m = False"
| "ge_number t NaN = False"
| "ge_number PosInfinity m = True"
| "ge_number t NegInfinity = True"
| "ge_number NegInfinity m = False"
| "ge_number t PosInfinity = False"
| "ge_number (Finite a) (Finite b) = (b \<le> a)"

text \<open>
  Decimal notation, read as positional notation: the value of a digit is its place in
  \<open>0123456789\<close>, and a digit followed by \<open>n\<close> more digits counts \<open>10 ^ n\<close> times its
  value. A numeral is a row of digits, optionally followed by a point and a second row
  of digits, optionally preceded by a sign.
\<close>

definition decimal_digits :: string where
  "decimal_digits = ''0123456789''"

fun index_of :: "char \<Rightarrow> string \<Rightarrow> nat" where
  "index_of c [] = 0"
| "index_of c (d # ds) = (if c = d then 0 else Suc (index_of c ds))"

definition digit_of :: "char \<Rightarrow> nat" where
  "digit_of c = index_of c decimal_digits"

definition digit_row :: "string \<Rightarrow> bool" where
  "digit_row ds = (ds \<noteq> [] \<and> set ds \<subseteq> set decimal_digits)"

fun decimal_value :: "string \<Rightarrow> nat" where
  "decimal_value [] = 0"
| "decimal_value (c # cs) = digit_of c * 10 ^ length cs + decimal_value cs"

inductive unsigned_decimal :: "string \<Rightarrow> rat \<Rightarrow> bool" where
  whole: "digit_row ds \<Longrightarrow> unsigned_decimal ds (of_nat (decimal_value ds))"
| with_fraction:
    "digit_row ds \<Longrightarrow> digit_row fs \<Longrightarrow>
     unsigned_decimal (ds @ CHR ''.'' # fs)
       (of_nat (decimal_value ds) + of_nat (decimal_value fs) / 10 ^ length fs)"

inductive signed_decimal :: "string \<Rightarrow> rat \<Rightarrow> bool" where
  no_sign: "unsigned_decimal t v \<Longrightarrow> signed_decimal t v"
| plus_sign: "unsigned_decimal t v \<Longrightarrow> signed_decimal (CHR ''+'' # t) v"
| minus_sign: "unsigned_decimal t v \<Longrightarrow> signed_decimal (CHR ''-'' # t) (- v)"

text \<open>
  The specification's \<^verbatim>\<open>minTotal\<close> is an optional number; the component holds a number or
  the text of an input field. \<open>reads_as least m\<close>: the stored value \<open>least\<close> stands
  for the optional number \<open>m\<close>. ``Set and non-zero/non-empty'': the number 0, \<^verbatim>\<open>NaN\<close> and
  the empty text stand for no constraint. A decimal numeral stands for its value, as a
  double. Any other text stands for what JavaScript's \<^verbatim>\<open>Number\<close> reads it as (a numeral
  with an exponent, a hexadecimal numeral, white space around a numeral,
  \<^verbatim>\<open>Infinity\<close>), when that is a number.
\<close>

inductive reads_as :: "NumOrStr \<Rightarrow> JSNumber option \<Rightarrow> bool" where
  number_unset: "n = Finite 0 \<or> n = NaN \<Longrightarrow> reads_as (Num n) None"
| number_set: "n \<noteq> Finite 0 \<Longrightarrow> n \<noteq> NaN \<Longrightarrow> reads_as (Num n) (Some n)"
| text_empty: "reads_as (Str []) None"
| text_decimal: "signed_decimal t v \<Longrightarrow> reads_as (Str t) (Some (round_double v))"
| text_other: "t \<noteq> [] \<Longrightarrow> \<not> isNaN (Number (Str t)) \<Longrightarrow> reads_as (Str t) (Some (Number (Str t)))"

text \<open>The three filter predicates; a criterion that is absent always passes.\<close>

definition spec_passes ::
  "string option \<Rightarrow> StatusFilter \<Rightarrow> JSNumber option \<Rightarrow> Order \<Rightarrow> bool" where
  "spec_passes searchText wanted least order =
     ((\<forall>t. searchText = Some t \<and> t \<noteq> [] \<longrightarrow> ci_substring t (customerName order)) \<and>
      (\<forall>st. wanted = Only st \<longrightarrow> status order = st) \<and>
      (\<forall>m. least = Some m \<longrightarrow> ge_number (orderTotal order) m))"

subsection \<open>The sum of a sequence of numbers\<close>

text \<open>
  \<^verbatim>\<open>sum(order.total for order in visibleOrders)\<close>: start from 0 and add the numbers in
  their order, each addition an addition of doubles.
\<close>

fun sum_from :: "JSNumber \<Rightarrow> JSNumber list \<Rightarrow> JSNumber" where
  "sum_from acc [] = acc"
| "sum_from acc (x # xs) = sum_from (js_add acc x) xs"

definition sum_in_order :: "JSNumber list \<Rightarrow> JSNumber" where
  "sum_in_order xs = sum_from (Finite 0) xs"

section \<open>Invariants of the state machine\<close>

definition refs_fresh :: "State \<Rightarrow> bool" where
  "refs_fresh s = (orders_ref s < next_ref s \<and> filtered_ref s < next_ref s)"

definition memo_consistent :: "State \<Rightarrow> bool" where
  "memo_consistent s =
     (totalRevenue s = computeTotalRevenue (filteredOrders s) \<and>
      (revenue_deps s = None \<or> revenue_deps s = Some (filtered_ref s)))"

definition flags_ok :: "State \<Rightarrow> bool" where
  "flags_ok s =
     ((loading s \<longrightarrow> inflight s \<noteq> []) \<and>
      (error s = None \<or> error s = Some ''Failed to load orders'') \<and>
      (error s \<noteq> None \<longrightarrow> console s \<noteq> []))"

definition requests_ok :: "State \<Rightarrow> bool" where
  "requests_ok s =
     ((inflight s \<noteq> [] \<longrightarrow> mounted s) \<and> (\<forall>r \<in> set (inflight s). r < issued s) \<and>
      distinct (inflight s))"

definition criteria_ok :: "State \<Rightarrow> bool" where
  "criteria_ok s = (\<not> isNaN (Number (minTotal s)))"

definition invariant :: "State \<Rightarrow> bool" where
  "invariant s =
     (refs_fresh s \<and> memo_consistent s \<and> flags_ok s \<and> requests_ok s \<and> criteria_ok s)"

section \<open>The query pipeline meets its specification\<close>

subsection \<open>Rounding to a double\<close>

lemma pow2_powi: "pow2 e = 2 powi e"
  by (simp add: pow2_def power_int_def field_simps)

lemma pow2_pos: "0 < pow2 e"
  by (simp add: pow2_powi)

lemma pow2_mono: "a \<le> b \<Longrightarrow> pow2 a \<le> pow2 b"
  by (simp add: pow2_powi power_int_increasing)

lemma quotient_of_pos:
  assumes "0 < x"
  shows "0 < fst (quotient_of x) \<and> 0 < snd (quotient_of x) \<and>
         x = of_int (fst (quotient_of x)) / of_int (snd (quotient_of x))"
  by (metis Fract_of_int_quotient Fract_quotient_of assms
    quotient_of_denom_pos' zero_less_Fract_iff)

lemma bitlen_ge_1: "0 < p \<Longrightarrow> 1 \<le> bitlen p"
  using bitlen_eq_zero_iff [of p] bitlen_nonneg [of p] by linarith

lemma bitlen_lower_rat:
  assumes "0 < p"
  shows "pow2 (bitlen p - 1) \<le> of_int p"
proof -
  have b: "2 ^ nat (bitlen p - 1) \<le> p" using bitlen_bounds [OF assms] ..
  have "pow2 (bitlen p - 1) = of_int (2 ^ nat (bitlen p - 1))"
    using bitlen_ge_1 [OF assms] by (simp add: pow2_def)
  also have "\<dots> \<le> of_int p" using b by (simp only: of_int_le_iff)
  finally show ?thesis .
qed

lemma bitlen_upper_rat:
  assumes "0 < q"
  shows "of_int q < pow2 (bitlen q)"
proof -
  have b: "q < 2 ^ nat (bitlen q)" using bitlen_bounds [OF assms] ..
  have "pow2 (bitlen q) = of_int (2 ^ nat (bitlen q))"
    using bitlen_ge_1 [OF assms] by (simp add: pow2_def)
  moreover have "(of_int q :: rat) < of_int (2 ^ nat (bitlen q))"
    using b by (simp only: of_int_less_iff)
  ultimately show ?thesis by simp
qed

lemma pow2_diff: "pow2 (a - b) = pow2 a / pow2 b"
  by (simp add: pow2_powi power_int_diff)

lemma binary_exponent_le:
  assumes "0 < x"
  shows "pow2 (binary_exponent x) \<le> x"
proof -
  define p where "p = fst (quotient_of x)"
  define q where "q = snd (quotient_of x)"
  have pq: "0 < p" "0 < q" "x = of_int p / of_int q"
    using quotient_of_pos [OF assms] by (simp_all add: p_def q_def)
  have "pow2 (bitlen p - bitlen q - 1) = pow2 (bitlen p - 1) / pow2 (bitlen q)"
    using pow2_diff [of "bitlen p - 1" "bitlen q"] by (simp add: algebra_simps)
  also have "\<dots> \<le> of_int p / pow2 (bitlen q)"
    using bitlen_lower_rat [OF pq(1)] pow2_pos [of "bitlen q"] by (simp add: divide_right_mono)
  also have "\<dots> \<le> of_int p / of_int q"
    using bitlen_upper_rat [OF pq(2)] pq(1) pq(2) by (simp add: frac_le)
  finally have low: "pow2 (bitlen p - bitlen q - 1) \<le> x" by (simp add: pq(3))
  show ?thesis
    using low by (simp add: binary_exponent_def Let_def p_def q_def)
qed

lemma binary_exponent_gt:
  assumes "0 < x"
  shows "x < pow2 (binary_exponent x + 1)"
proof -
  define p where "p = fst (quotient_of x)"
  define q where "q = snd (quotient_of x)"
  have pq: "0 < p" "0 < q" "x = of_int p / of_int q"
    using quotient_of_pos [OF assms] by (simp_all add: p_def q_def)
  have "of_int p / of_int q < pow2 (bitlen p) / of_int q"
    using bitlen_upper_rat [OF pq(1)] pq(2) by (simp add: divide_strict_right_mono)
  also have "\<dots> \<le> pow2 (bitlen p) / pow2 (bitlen q - 1)"
    using bitlen_lower_rat [OF pq(2)] pow2_pos [of "bitlen q - 1"] pow2_pos [of "bitlen p"]
    by (simp add: frac_le)
  also have "\<dots> = pow2 (bitlen p - bitlen q + 1)"
    using pow2_diff [of "bitlen p" "bitlen q - 1"] by (simp add: algebra_simps)
  finally have up: "x < pow2 (bitlen p - bitlen q + 1)" by (simp add: pq(3))
  show ?thesis
    using up by (auto simp: binary_exponent_def Let_def p_def q_def not_le)
qed

lemma round_half_even_int: "round_half_even (of_int k) = k"
  by (simp add: round_half_even_def)

lemma pow2_le_53:
  assumes "pow2 e \<le> x" and "x \<le> 2 ^ 53"
  shows "e \<le> 53"
proof (rule ccontr)
  assume "\<not> e \<le> 53"
  then have "54 \<le> e" by simp
  then have "pow2 54 \<le> pow2 e" by (rule pow2_mono)
  moreover have "pow2 54 = 2 ^ 54" by (simp add: pow2_def)
  ultimately have "(2::rat) ^ 54 \<le> 2 ^ 53" using assms by linarith
  then show False by simp
qed

lemma round_double_nat:
  assumes "n \<le> 2 ^ 53"
  shows "round_double (of_nat n) = Finite (of_nat n)"
proof (cases "n = 0")
  case True
  then show ?thesis by (simp add: round_double_def)
next
  case False
  define x :: rat where "x = of_nat n"
  have xpos: "0 < x" using False by (simp add: x_def)
  have xle: "x \<le> 2 ^ 53"
  proof -
    have "(of_nat n :: rat) \<le> of_nat (2 ^ 53)" using assms by (simp only: of_nat_le_iff)
    then show ?thesis by (simp add: x_def)
  qed
  define e where "e = double_exponent x"
  have "1 \<le> x" using False by (simp add: x_def)
  have be: "binary_exponent x \<le> 53"
    using pow2_le_53 [OF binary_exponent_le [OF xpos] xle] .
  then have e53: "e \<le> 53" by (simp add: e_def double_exponent_def)
  have em: "double_mantissa x = round_half_even (x / pow2 (e - 52))"
    by (simp add: double_mantissa_def e_def)
  have exact: "of_int (double_mantissa x) * pow2 (e - 52) = x \<and> (e = 53 \<longrightarrow> double_mantissa x \<le> 2 ^ 52)"
  proof (cases "e \<le> 52")
    case True
    then have q: "pow2 (e - 52) = 1 / 2 ^ nat (52 - e)"
      by (cases "e = 52") (simp_all add: pow2_def)
    have "x / pow2 (e - 52) = of_int (int n * 2 ^ nat (52 - e))"
      by (simp add: q x_def)
    then have "double_mantissa x = int n * 2 ^ nat (52 - e)"
      unfolding em by (simp only: round_half_even_int)
    then show ?thesis using True by (simp add: q x_def)
  next
    case False
    with e53 have e: "e = 53" by simp
    then have "binary_exponent x = 53" using be by (simp add: e_def double_exponent_def)
    then have "pow2 53 \<le> x" using binary_exponent_le [OF xpos] by simp
    then have x53: "x = 2 ^ 53" using xle by (simp add: pow2_def)
    have "x / pow2 (e - 52) = of_int (2 ^ 52)" by (simp add: e x53 pow2_def)
    then have "double_mantissa x = 2 ^ 52"
      unfolding em by (simp only: round_half_even_int)
    then show ?thesis by (simp add: e x53 pow2_def)
  qed
  have no_overflow: "\<not> (e = 1023 \<and> 2 ^ 53 \<le> double_mantissa x)"
    using e53 by simp
  show ?thesis
    using xpos exact no_overflow
    by (simp add: round_double_def e_def [symmetric] x_def [symmetric])
qed

subsection \<open>Case and substrings\<close>

lemma code_unit_inj: "code_unit x = code_unit y \<longleftrightarrow> x = y"
  by (simp add: code_unit_def)

lemma code_unit_lower_char:
  "code_unit (lower_char c) =
     (if (65 \<le> code_unit c \<and> code_unit c \<le> 90) \<or>
         (192 \<le> code_unit c \<and> code_unit c \<le> 222 \<and> code_unit c \<noteq> 215)
      then code_unit c + 32 else code_unit c)"
  by (auto simp: lower_char_def code_unit_def)

lemma lower_char_same_letter: "lower_char a = lower_char b \<longleftrightarrow> same_letter a b"
proof -
  have "lower_char a = lower_char b \<longleftrightarrow> code_unit (lower_char a) = code_unit (lower_char b)"
    by (simp add: code_unit_inj)
  also have "\<dots> \<longleftrightarrow> same_letter a b"
    unfolding code_unit_lower_char same_letter_def small_letter_of_def code_unit_inj [of a b, symmetric]
    by (auto split: if_splits)
  finally show ?thesis .
qed

lemma map_lower_char_eq:
  "map lower_char xs = map lower_char ys \<longleftrightarrow> same_ignoring_case xs ys"
  unfolding same_ignoring_case_def
proof (induction xs arbitrary: ys)
  case Nil
  show ?case by auto
next
  case (Cons x xs)
  show ?case by (cases ys) (auto simp: Cons.IH lower_char_same_letter)
qed

lemma same_letter_examples:
  "same_letter (CHR ''B'') (CHR ''b'')" "same_letter (CHR ''b'') (CHR ''B'')"
  "\<not> same_letter (CHR ''b'') (CHR ''c'')" "\<not> same_letter (CHR ''@'') (CHR 0x60)"
  by (simp_all add: same_letter_def small_letter_of_def code_unit_def)

subsection \<open>\<^verbatim>\<open>Number\<close> reads decimal numerals as positional notation\<close>

lemma round_double_not_NaN: "\<not> isNaN (round_double x)"
  by (simp add: round_double_def)

lemma negate_round_double: "negate (round_double x) = round_double (- x)"
  by (simp add: round_double_def)

lemma decimal_digit_facts:
  assumes "c \<in> set decimal_digits"
  shows "hexVal c = Some (digit_of c)" and "digit_of c < 10" and "isDigit c"
    and "\<not> isWhiteSpace c" and "c \<noteq> CHR ''+''" and "c \<noteq> CHR ''-''"
  using assms
  by (auto simp: decimal_digits_def digit_of_def hexVal_def isDigit_def isWhiteSpace_def
      code_unit_def)

lemma digitsIn_decimal:
  "set ds \<subseteq> set decimal_digits \<Longrightarrow>
   digitsIn 10 acc ds = Some (acc * 10 ^ length ds + decimal_value ds)"
proof (induction ds arbitrary: acc)
  case Nil
  show ?case by simp
next
  case (Cons c cs)
  then have c: "c \<in> set decimal_digits" and cs: "set cs \<subseteq> set decimal_digits" by auto
  show ?case
    using decimal_digit_facts(1,2) [OF c] Cons.IH [OF cs]
    by (simp add: algebra_simps)
qed

lemma digitString_decimal: "digit_row ds \<Longrightarrow> digitString 10 ds = Some (decimal_value ds)"
  by (simp add: digit_row_def digitString_def digitsIn_decimal)

lemma decimal_value_append:
  "decimal_value (ds @ fs) = decimal_value ds * 10 ^ length fs + decimal_value fs"
  by (induction ds) (simp_all add: algebra_simps power_add)

lemma takeWhile_digits: "set ds \<subseteq> set decimal_digits \<Longrightarrow> takeWhile isDigit ds = ds"
  by (simp add: decimal_digit_facts(3) subset_iff)

lemma dropWhile_digits: "set ds \<subseteq> set decimal_digits \<Longrightarrow> dropWhile isDigit ds = []"
  by (simp add: decimal_digit_facts(3) subset_iff)

lemma point_no_digit: "\<not> isDigit (CHR ''.'')"
  by (simp add: isDigit_def code_unit_def)

lemma takeWhile_digits_point:
  "set ds \<subseteq> set decimal_digits \<Longrightarrow> takeWhile isDigit (ds @ CHR ''.'' # fs) = ds"
  by (simp add: takeWhile_append2 decimal_digit_facts(3) subset_iff point_no_digit)

lemma dropWhile_digits_point:
  "set ds \<subseteq> set decimal_digits \<Longrightarrow> dropWhile isDigit (ds @ CHR ''.'' # fs) = CHR ''.'' # fs"
  by (simp add: dropWhile_append2 decimal_digit_facts(3) subset_iff point_no_digit)

lemma unsignedDecimal_whole:
  assumes "digit_row ds"
  shows "unsignedDecimal ds = round_double (of_nat (decimal_value ds))"
proof -
  have s: "set ds \<subseteq> set decimal_digits" and n: "ds \<noteq> []"
    using assms by (simp_all add: digit_row_def)
  show ?thesis
    using n digitString_decimal [OF assms]
    by (simp add: unsignedDecimal_def takeWhile_digits [OF s] dropWhile_digits [OF s]
        exponentPart_def scale10_def)
qed

lemma unsignedDecimal_fraction:
  assumes "digit_row ds" and "digit_row fs"
  shows "unsignedDecimal (ds @ CHR ''.'' # fs) =
         round_double (of_nat (decimal_value ds) + of_nat (decimal_value fs) / 10 ^ length fs)"
proof -
  have s: "set ds \<subseteq> set decimal_digits" and n: "ds \<noteq> []"
    using assms(1) by (simp_all add: digit_row_def)
  have t: "set fs \<subseteq> set decimal_digits" and m: "fs \<noteq> []"
    using assms(2) by (simp_all add: digit_row_def)
  have r: "digit_row (ds @ fs)" using s t n by (simp add: digit_row_def)
  have v: "scale10 (of_nat (decimal_value (ds @ fs))) (0 - int (length fs)) =
           of_nat (decimal_value ds) + of_nat (decimal_value fs) / 10 ^ length fs"
    using m by (simp add: scale10_def decimal_value_append field_simps)
  show ?thesis
    using n digitString_decimal [OF r] v
    by (simp add: unsignedDecimal_def takeWhile_digits_point [OF s]
        dropWhile_digits_point [OF s] takeWhile_digits [OF t] dropWhile_digits [OF t]
        exponentPart_def)
qed

lemma unsigned_decimal_chars:
  "unsigned_decimal t v \<Longrightarrow>
   t \<noteq> [] \<and> set t \<subseteq> insert (CHR ''.'') (set decimal_digits) \<and>
   hd t \<in> set decimal_digits \<and> last t \<in> set decimal_digits"
  by (induction rule: unsigned_decimal.induct) (auto simp: digit_row_def hd_append)

lemma unsignedDecimal_reads: "unsigned_decimal t v \<Longrightarrow> unsignedDecimal t = round_double v"
  by (induction rule: unsigned_decimal.induct)
     (simp_all add: unsignedDecimal_whole unsignedDecimal_fraction)

lemma strUnsigned_reads:
  assumes "unsigned_decimal t v"
  shows "strUnsigned t = round_double v"
proof -
  have "CHR ''I'' \<notin> set t"
    using unsigned_decimal_chars [OF assms] by (auto simp: decimal_digits_def)
  then have "t \<noteq> ''Infinity''" by auto
  then show ?thesis by (simp add: strUnsigned_def unsignedDecimal_reads [OF assms])
qed

lemma trim_id:
  assumes "t \<noteq> []" and "\<not> isWhiteSpace (hd t)" and "\<not> isWhiteSpace (last t)"
  shows "trim t = t"
proof -
  have a: "dropWhile isWhiteSpace t = t" using assms(1,2) by (cases t) simp_all
  have "rev t \<noteq> []" and "\<not> isWhiteSpace (hd (rev t))"
    using assms(1,3) by (simp_all add: hd_rev)
  then have b: "dropWhile isWhiteSpace (rev t) = rev t" by (cases "rev t") simp_all
  show ?thesis by (simp add: trim_def a b)
qed

lemma nonDecimalLiteral_none:
  assumes "set t \<subseteq> insert (CHR ''.'') (set decimal_digits)"
  shows "nonDecimalLiteral t = None"
proof (cases t)
  case Nil
  then show ?thesis by (simp add: nonDecimalLiteral_def)
next
  case (Cons c0 r)
  show ?thesis
  proof (cases r)
    case Nil
    with Cons show ?thesis by (simp add: nonDecimalLiteral_def)
  next
    case (Cons c1 ds)
    with \<open>t = c0 # r\<close> assms have "c1 \<in> insert (CHR ''.'') (set decimal_digits)" by auto
    then have "c1 \<notin> {CHR ''x'', CHR ''X'', CHR ''o'', CHR ''O'', CHR ''b'', CHR ''B''}"
      by (auto simp: decimal_digits_def)
    with Cons \<open>t = c0 # r\<close> show ?thesis by (simp add: nonDecimalLiteral_def)
  qed
qed

lemma StringToNumber_unsigned:
  assumes "unsigned_decimal t v"
  shows "StringToNumber t = round_double v"
proof -
  note c = unsigned_decimal_chars [OF assms]
  have tr: "trim t = t"
    using c decimal_digit_facts(4) by (intro trim_id) auto
  have h: "hd t \<noteq> CHR ''+''" "hd t \<noteq> CHR ''-''"
    using c decimal_digit_facts(5,6) by auto
  show ?thesis
    using c h by (simp add: StringToNumber_def tr nonDecimalLiteral_none strUnsigned_reads [OF assms])
qed

lemma StringToNumber_signed:
  assumes "unsigned_decimal t v" and "sg = CHR ''+'' \<or> sg = CHR ''-''"
  shows "StringToNumber (sg # t) =
         (if sg = CHR ''-'' then round_double (- v) else round_double v)"
proof -
  note c = unsigned_decimal_chars [OF assms(1)]
  have w: "\<not> isWhiteSpace sg"
    using assms(2) by (auto simp: isWhiteSpace_def code_unit_def)
  have l: "\<not> isWhiteSpace (last (sg # t))"
    using c decimal_digit_facts(4) by auto
  have tr: "trim (sg # t) = sg # t"
    using w l by (intro trim_id) auto
  have nd: "nonDecimalLiteral (sg # t) = None"
    using assms(2) by (cases t) (auto simp: nonDecimalLiteral_def)
  show ?thesis
    using assms(2)
    by (auto simp: StringToNumber_def tr nd strUnsigned_reads [OF assms(1)] negate_round_double)
qed

lemma StringToNumber_reads_decimal: "signed_decimal t v \<Longrightarrow> StringToNumber t = round_double v"
  by (induction rule: signed_decimal.induct)
     (simp_all add: StringToNumber_unsigned StringToNumber_signed)

lemma signed_decimal_not_empty: "signed_decimal t v \<Longrightarrow> t \<noteq> []"
  by (induction rule: signed_decimal.induct) (auto dest: unsigned_decimal_chars)

subsection \<open>Substring search\<close>

lemma startsWith_iff: "startsWith s p \<longleftrightarrow> (\<exists>suf. s = p @ suf)"
  by (induction s p rule: startsWith.induct) auto

lemma str_includes_iff: "str_includes s p \<longleftrightarrow> (\<exists>pre suf. s = pre @ p @ suf)"
proof (induction s)
  case Nil
  show ?case by (cases p) auto
next
  case (Cons c cs)
  show ?case
  proof
    assume "str_includes (c # cs) p"
    then consider "startsWith (c # cs) p" | "str_includes cs p" by auto
    then show "\<exists>pre suf. c # cs = pre @ p @ suf"
    proof cases
      case 1
      then obtain suf where "c # cs = p @ suf" by (auto simp: startsWith_iff)
      then have "c # cs = [] @ p @ suf" by simp
      then show ?thesis by blast
    next
      case 2
      then obtain pre suf where "cs = pre @ p @ suf" using Cons.IH by blast
      then have "c # cs = (c # pre) @ p @ suf" by simp
      then show ?thesis by blast
    qed
  next
    assume "\<exists>pre suf. c # cs = pre @ p @ suf"
    then obtain pre suf where e: "c # cs = pre @ p @ suf" by blast
    show "str_includes (c # cs) p"
    proof (cases pre)
      case Nil
      with e have "startsWith (c # cs) p" by (auto simp: startsWith_iff)
      then show ?thesis by simp
    next
      case (Cons a pre')
      with e have "cs = pre' @ p @ suf" by simp
      then have "str_includes cs p" using Cons.IH by blast
      then show ?thesis by simp
    qed
  qed
qed

lemma includes_lower_iff:
  "str_includes (toLowerCase hay) (toLowerCase needle) \<longleftrightarrow> ci_substring needle hay"
proof
  assume "str_includes (toLowerCase hay) (toLowerCase needle)"
  then obtain pre suf where e: "map lower_char hay = pre @ map lower_char needle @ suf"
    by (auto simp: str_includes_iff toLowerCase_def)
  have le: "length pre \<le> length hay"
    using arg_cong [OF e, of length] by simp
  have "map lower_char (take (length needle) (drop (length pre) hay)) =
        take (length needle) (drop (length pre) (map lower_char hay))"
    by (simp add: take_map drop_map)
  also have "\<dots> = map lower_char needle" by (simp add: e)
  finally have "same_ignoring_case (take (length needle) (drop (length pre) hay)) needle"
    by (simp add: map_lower_char_eq)
  then show "ci_substring needle hay"
    using le by (auto simp: ci_substring_def)
next
  assume "ci_substring needle hay"
  then obtain i where i: "i \<le> length hay"
    and "same_ignoring_case (take (length needle) (drop i hay)) needle"
    by (auto simp: ci_substring_def)
  then have m: "map lower_char (take (length needle) (drop i hay)) = map lower_char needle"
    by (simp add: map_lower_char_eq)
  have "hay = take i hay @ take (length needle) (drop i hay) @ drop (length needle) (drop i hay)"
    by (metis append_take_drop_id)
  then have "map lower_char hay =
      map lower_char (take i hay) @ map lower_char (take (length needle) (drop i hay)) @
      map lower_char (drop (length needle) (drop i hay))"
    by (metis map_append)
  then show "str_includes (toLowerCase hay) (toLowerCase needle)"
    unfolding str_includes_iff toLowerCase_def m by blast
qed

subsection \<open>Order of strings\<close>

lemma str_gt_key: "str_gt a b \<longleftrightarrow> map code_unit b < map code_unit a"
  by (induction a b rule: str_gt.induct) (auto simp: code_unit_inj)

lemma str_gt_lex: "str_gt a b \<longleftrightarrow> lex_less b a"
  unfolding lex_less_def
  by (induction a b rule: str_gt.induct) (auto simp: code_unit_inj)

lemma not_str_gt_lex: "\<not> str_gt b a \<longleftrightarrow> lex_le b a"
proof -
  have "\<not> map code_unit a < map code_unit b \<longleftrightarrow> map code_unit b \<le> map code_unit a"
    by auto
  moreover have "map code_unit b = map code_unit a \<longleftrightarrow> b = a"
    by (simp add: inj_map_eq_map inj_on_def code_unit_inj)
  ultimately show ?thesis
    unfolding lex_le_def str_gt_lex [symmetric] str_gt_key by (auto simp: order_le_less)
qed

subsection \<open>The filter callback\<close>

lemma isNaN_iff: "isNaN x \<longleftrightarrow> x = NaN"
  by (cases x) simp_all

lemma js_lt_ge: "\<not> isNaN x \<Longrightarrow> \<not> isNaN y \<Longrightarrow> js_lt x y \<longleftrightarrow> \<not> ge_number x y"
  by (cases x; cases y) auto

lemma reads_as_truthy:
  assumes "reads_as stored least"
  shows "if truthy_minTotal stored
         then least = Some (Number stored) \<and> \<not> isNaN (Number stored)
         else least = None"
  using assms
proof (cases rule: reads_as.cases)
  case (text_decimal t v)
  then show ?thesis
    using signed_decimal_not_empty [of t v] StringToNumber_reads_decimal [of t v]
    by (simp add: round_double_not_NaN)
qed (auto simp: isNaN_iff)

lemma filterCallback_spec:
  assumes "reads_as stored least" and "\<not> isNaN (orderTotal order)"
  shows "filterCallback searchText wanted stored order = spec_passes searchText wanted least order"
proof -
  note r = reads_as_truthy [OF assms(1)]
  have m: "(truthy_minTotal stored \<and> js_lt (orderTotal order) (Number stored)) \<longleftrightarrow>
           \<not> (\<forall>m. least = Some m \<longrightarrow> ge_number (orderTotal order) m)"
  proof (cases "truthy_minTotal stored")
    case True
    with r have "least = Some (Number stored)" and "\<not> isNaN (Number stored)" by simp_all
    then show ?thesis using True js_lt_ge [OF assms(2)] by simp
  next
    case False
    with r show ?thesis by simp
  qed
  show ?thesis
  proof (cases searchText)
    case None
    then show ?thesis
      using m by (cases wanted) (auto simp: filterCallback_def spec_passes_def)
  next
    case (Some s)
    then show ?thesis
      using m by (cases wanted) (auto simp: filterCallback_def spec_passes_def includes_lower_iff)
  qed
qed

subsection \<open>The sort\<close>

lemma lex_le_key: "lex_le x y \<longleftrightarrow> map code_unit x \<le> map code_unit y"
  using not_str_gt_lex [of x y] by (simp add: str_gt_key not_less)

lemma sortCallback_negative: "sortCallback a b < 0 \<longleftrightarrow> str_gt (createdAt a) (createdAt b)"
  by (simp add: sortCallback_def)

lemma mset_insert_by: "mset (insert_by c x ys) = add_mset x (mset ys)"
  by (induction ys) auto

lemma set_insert_by: "set (insert_by c x ys) = insert x (set ys)"
  using arg_cong [OF mset_insert_by, of set_mset c x ys] by simp

lemma mset_foldl_insert_by:
  "mset (foldl (\<lambda>sp x. insert_by c x sp) acc xs) = mset acc + mset xs"
  by (induction xs arbitrary: acc) (auto simp: mset_insert_by)

lemma mset_array_sort: "mset (array_sort c xs) = mset xs"
  by (simp add: array_sort_def mset_foldl_insert_by)

lemma newest_first_insert_by:
  "newest_first ys \<Longrightarrow> newest_first (insert_by sortCallback x ys)"
proof (induction ys)
  case Nil
  show ?case by (simp add: newest_first_def)
next
  case (Cons y ys)
  have tail: "newest_first ys" using Cons.prems by (simp add: newest_first_def)
  show ?case
  proof (cases "sortCallback x y < 0")
    case True
    then have xy: "map code_unit (createdAt y) < map code_unit (createdAt x)"
      by (simp add: sortCallback_negative str_gt_key)
    have "\<forall>z \<in> set (y # ys). map code_unit (createdAt z) \<le> map code_unit (createdAt x)"
    proof
      fix z assume "z \<in> set (y # ys)"
      then have "map code_unit (createdAt z) \<le> map code_unit (createdAt y)"
        using Cons.prems by (auto simp: newest_first_def lex_le_key)
      then show "map code_unit (createdAt z) \<le> map code_unit (createdAt x)"
        using xy by simp
    qed
    then show ?thesis
      using True Cons.prems by (simp add: newest_first_def lex_le_key)
  next
    case False
    then have xy: "map code_unit (createdAt x) \<le> map code_unit (createdAt y)"
      by (simp add: sortCallback_negative str_gt_key not_less)
    have "newest_first (insert_by sortCallback x ys)" using Cons.IH tail .
    then show ?thesis
      using False Cons.prems xy by (auto simp: newest_first_def lex_le_key set_insert_by)
  qed
qed

lemma newest_first_foldl:
  "newest_first acc \<Longrightarrow> newest_first (foldl (\<lambda>sp x. insert_by sortCallback x sp) acc xs)"
  by (induction xs arbitrary: acc) (auto simp: newest_first_insert_by)

lemma newest_first_array_sort: "newest_first (array_sort sortCallback xs)"
proof -
  have "newest_first []" by (simp add: newest_first_def)
  then show ?thesis unfolding array_sort_def by (rule newest_first_foldl)
qed

subsection \<open>The sum\<close>





text \<open>Beyond \<open>2 ^ 53\<close> the sum of doubles is not the sum of the numbers.\<close>

lemma sum_in_order_rounds:
  "sum_in_order [Finite (2 ^ 53), Finite 1, Finite 1] = Finite (2 ^ 53)"
  by code_simp

text \<open>
  Claim C1. Let the stored \<^verbatim>\<open>minTotal\<close> stand for the optional number \<open>least\<close> (every value
  \<^verbatim>\<open>handleMinTotalChange\<close> lets through stands for one), and let no order have the total
  \<^verbatim>\<open>NaN\<close> (which JSON cannot express). Then the computed \<^verbatim>\<open>filteredOrders\<close> holds orders of
  the input list only, each as often as the input does when it passes the three filter
  predicates and not at all otherwise, and is in descending lexicographic order of
  \<^verbatim>\<open>createdAt\<close>.
\<close>

theorem visibleOrders_filter_sort:
  assumes "reads_as stored least" and "\<forall>order \<in> set os. \<not> isNaN (orderTotal order)"
  shows "set (computeFilteredOrders os searchText wanted stored) \<subseteq> set os \<and>
         mset (computeFilteredOrders os searchText wanted stored) =
           filter_mset (spec_passes searchText wanted least) (mset os) \<and>
         (\<forall>order. order \<in> set (computeFilteredOrders os searchText wanted stored) \<longleftrightarrow>
            order \<in> set os \<and> spec_passes searchText wanted least order) \<and>
         newest_first (computeFilteredOrders os searchText wanted stored)"
proof -
  have cb: "filter (filterCallback searchText wanted stored) os =
            filter (spec_passes searchText wanted least) os"
    using assms by (intro filter_cong) (auto simp: filterCallback_spec)
  have m: "mset (computeFilteredOrders os searchText wanted stored) =
           filter_mset (spec_passes searchText wanted least) (mset os)"
    by (simp add: computeFilteredOrders_def mset_array_sort cb)
  have s: "set (computeFilteredOrders os searchText wanted stored) =
           {order \<in> set os. spec_passes searchText wanted least order}"
    using arg_cong [OF m, of set_mset] by simp
  have n: "newest_first (computeFilteredOrders os searchText wanted stored)"
    by (simp add: computeFilteredOrders_def newest_first_array_sort)
  show ?thesis using m s n by auto
qed

lemma reads_fifteen: "reads_as (Str ''15'') (Some (Finite 15))"
proof -
  have dv: "decimal_value ''15'' = 15" by (simp add: digit_of_def decimal_digits_def)
  have "digit_row ''15''" by (simp add: digit_row_def decimal_digits_def)
  then have "unsigned_decimal ''15'' (of_nat (decimal_value ''15''))" by (rule whole)
  then have "signed_decimal ''15'' (of_nat (decimal_value ''15''))" by (rule no_sign)
  then have r: "reads_as (Str ''15'') (Some (round_double (of_nat (decimal_value ''15''))))"
    by (rule text_decimal)
  have "round_double (of_nat (decimal_value ''15'')) = Finite (of_nat (decimal_value ''15''))"
    by (rule round_double_nat) (simp only: dv, simp)
  with r have "reads_as (Str ''15'') (Some (Finite (of_nat (decimal_value ''15''))))"
    by (simp only:)
  then show ?thesis unfolding dv by simp
qed

theorem visibleOrders_filter_sort_witness:
  "reads_as (Str ''15'') (Some (Finite 15)) \<and>
   \<not> isNaN (orderTotal alice) \<and> \<not> isNaN (orderTotal bob) \<and>
   mset (computeFilteredOrders [alice, bob] (Some ''bo'') AllStatuses (Str ''15'')) =
     filter_mset (spec_passes (Some ''bo'') AllStatuses (Some (Finite 15))) (mset [alice, bob]) \<and>
   newest_first (computeFilteredOrders [alice, bob] (Some ''bo'') AllStatuses (Str ''15'')) \<and>
   spec_passes (Some ''bo'') AllStatuses (Some (Finite 15)) bob \<and>
   \<not> spec_passes (Some ''bo'') AllStatuses (Some (Finite 15)) alice \<and>
   computeFilteredOrders [alice, bob] (Some ''bo'') AllStatuses (Str ''15'') = [bob]"
proof -
  have t: "\<not> isNaN (orderTotal alice)" "\<not> isNaN (orderTotal bob)"
    by (simp_all add: alice_def bob_def)
  then have h: "\<forall>order \<in> set [alice, bob]. \<not> isNaN (orderTotal order)" by simp
  note w = visibleOrders_filter_sort [OF reads_fifteen h, of "Some ''bo''" AllStatuses]
  have c: "computeFilteredOrders [alice, bob] (Some ''bo'') AllStatuses (Str ''15'') = [bob]"
    by code_simp
  have ne: "alice \<noteq> bob" by (simp add: alice_def bob_def)
  from w have iff: "order \<in> set (computeFilteredOrders [alice, bob] (Some ''bo'') AllStatuses (Str ''15'')) \<longleftrightarrow>
      order \<in> set [alice, bob] \<and> spec_passes (Some ''bo'') AllStatuses (Some (Finite 15)) order"
    for order by blast
  have b: "spec_passes (Some ''bo'') AllStatuses (Some (Finite 15)) bob"
    using iff [of bob] unfolding c by simp
  have a: "\<not> spec_passes (Some ''bo'') AllStatuses (Some (Finite 15)) alice"
    using iff [of alice] ne unfolding c by simp
  show ?thesis using reads_fifteen t w a b c by blast
qed

section \<open>Properties of the state machine\<close>

subsection \<open>What a render changes\<close>

lemmas hook_defs =
  render_def useEffect_fetchOrders_def fetchOrders_def useMemo_totalRevenue_def
  useMemo_filteredOrders_def

lemma render_keeps:
  "orders (render s) = orders s \<and> orders_ref (render s) = orders_ref s \<and>
   error (render s) = error s \<and> console (render s) = console s \<and>
   search (render s) = search s \<and> statusFilter (render s) = statusFilter s \<and>
   minTotal (render s) = minTotal s"
  by (simp add: hook_defs)

lemma render_effect_deps: "effect_deps (render s) = Some (length (orders s))"
  by (simp add: hook_defs)

lemma render_issued:
  "issued (render s) =
     (if effect_deps s = Some (length (orders s)) then issued s else Suc (issued s))"
  by (simp add: hook_defs)

lemma render_inflight:
  "inflight (render s) =
     (if effect_deps s = Some (length (orders s)) then inflight s else inflight s @ [issued s])"
  by (simp add: hook_defs)

lemma render_loading:
  "loading (render s) = (if effect_deps s = Some (length (orders s)) then loading s else True)"
  by (simp add: hook_defs)

lemma settle_keeps:
  "effect_deps (settle outcome s) = effect_deps s \<and> issued (settle outcome s) = issued s \<and>
   inflight (settle outcome s) = inflight s \<and> \<not> loading (settle outcome s)"
  by (cases outcome) (simp_all add: onFinally_def onFulfilled_def onRejected_def)

lemma render_deps_settled:
  "filtered_deps (render s) = Some (orders_ref (render s)) \<and>
   revenue_deps (render s) = Some (filtered_ref (render s)) \<and>
   effect_deps (render s) = Some (length (orders (render s)))"
  by (simp add: hook_defs)

lemma render_idempotent: "render (render s) = render s"
proof -
  define t where "t = render s"
  have f: "useMemo_filteredOrders t = t"
    using render_deps_settled [of s] by (simp add: useMemo_filteredOrders_def t_def)
  have r: "useMemo_totalRevenue t = t"
    using render_deps_settled [of s] by (simp add: useMemo_totalRevenue_def t_def)
  have e: "useEffect_fetchOrders t = t"
    using render_deps_settled [of s] by (simp add: useEffect_fetchOrders_def t_def)
  have "render t = t" by (simp add: render_def [of t] f r e)
  then show ?thesis by (simp add: t_def)
qed

subsection \<open>The invariant holds in every reachable state\<close>

lemmas invariant_defs =
  invariant_def refs_fresh_def memo_consistent_def flags_ok_def requests_ok_def
  criteria_ok_def mounted_def

lemma empty_minTotal_is_number: "\<not> isNaN (Number (Str []))"
  by (simp add: StringToNumber_def trim_def)

lemma invariant_initial: "invariant initial"
  using empty_minTotal_is_number
  by (simp add: invariant_defs initial_def computeTotalRevenue_def)

lemma invariant_useMemo:
  "invariant s \<Longrightarrow> invariant (useMemo_totalRevenue (useMemo_filteredOrders s))"
  by (auto simp: invariant_defs useMemo_totalRevenue_def useMemo_filteredOrders_def)

lemma invariant_useEffect_fetchOrders: "invariant s \<Longrightarrow> invariant (useEffect_fetchOrders s)"
  by (auto simp: invariant_defs useEffect_fetchOrders_def fetchOrders_def)

lemma invariant_render: "invariant s \<Longrightarrow> invariant (render s)"
  unfolding render_def
  by (intro invariant_useEffect_fetchOrders invariant_useMemo)

lemma invariant_fetchOrders: "invariant s \<Longrightarrow> mounted s \<Longrightarrow> invariant (fetchOrders s)"
  by (auto simp: invariant_defs fetchOrders_def)

lemma invariant_settle:
  "invariant s \<Longrightarrow> r \<in> set (inflight s) \<Longrightarrow>
   invariant (settle outcome (s\<lparr>inflight := removeAll r (inflight s)\<rparr>))"
  by (cases outcome)
     (auto simp: invariant_defs onFinally_def onFulfilled_def onRejected_def distinct_removeAll)

lemma invariant_handleMinTotalChange: "invariant s \<Longrightarrow> invariant (handleMinTotalChange v s)"
  using empty_minTotal_is_number
  by (auto simp: invariant_defs handleMinTotalChange_def)

lemma invariant_step: "invariant s \<Longrightarrow> step e s = Some s' \<Longrightarrow> invariant s'"
proof (cases e)
  case Mount
  assume "invariant s" "step e s = Some s'"
  with Mount show ?thesis by (auto simp: invariant_render split: if_splits)
next
  case Refresh
  assume "invariant s" "step e s = Some s'"
  with Refresh show ?thesis
    by (auto simp: invariant_render invariant_fetchOrders split: if_splits)
next
  case (Settle r outcome)
  assume "invariant s" "step e s = Some s'"
  with Settle show ?thesis
    by (auto simp: invariant_render invariant_settle split: if_splits)
next
  case (ChangeSearch v)
  assume i: "invariant s" and "step e s = Some s'"
  with ChangeSearch have s': "s' = render (s\<lparr>search := Some v\<rparr>)" by (auto split: if_splits)
  have "invariant (s\<lparr>search := Some v\<rparr>)" using i by (simp add: invariant_defs)
  then show ?thesis unfolding s' by (rule invariant_render)
next
  case (ChangeStatusFilter f)
  assume i: "invariant s" and "step e s = Some s'"
  with ChangeStatusFilter have s': "s' = render (s\<lparr>statusFilter := f\<rparr>)"
    by (auto split: if_splits)
  have "invariant (s\<lparr>statusFilter := f\<rparr>)" using i by (simp add: invariant_defs)
  then show ?thesis unfolding s' by (rule invariant_render)
next
  case (ChangeMinTotal v)
  assume "invariant s" "step e s = Some s'"
  with ChangeMinTotal show ?thesis
    by (auto simp: invariant_render invariant_handleMinTotalChange split: if_splits)
qed

lemma reachable_invariant: "reachable s \<Longrightarrow> invariant s"
  by (induction rule: reachable.induct) (auto simp: invariant_initial intro: invariant_step)

lemma reachable_effect_deps:
  "reachable s \<Longrightarrow> mounted s \<Longrightarrow> effect_deps s = Some (length (orders s))"
proof (induction rule: reachable.induct)
  case reachable_initial
  then show ?case by (simp add: mounted_def initial_def)
next
  case (reachable_step s e s')
  from reachable_step.hyps(2) show ?case
    by (cases e) (auto simp: render_effect_deps render_keeps split: if_splits)
qed

lemma run_reachable: "reachable s \<Longrightarrow> run es s = Some s' \<Longrightarrow> reachable s'"
proof (induction es arbitrary: s)
  case Nil
  then show ?case by simp
next
  case (Cons e es)
  then show ?case by (auto split: option.splits intro: reachable_step)
qed

subsection \<open>Reachable states of concrete runs\<close>

lemma run_witness:
  assumes "run es initial \<noteq> None"
    and "\<And>s. reachable s \<Longrightarrow> run es initial = Some s \<Longrightarrow> P s"
  shows "case run es initial of None \<Rightarrow> False | Some s \<Rightarrow> P s"
proof -
  from assms(1) obtain s where s: "run es initial = Some s" by auto
  have "reachable s" using run_reachable [OF reachable_initial s] .
  then have "P s" using s by (rule assms(2))
  then show ?thesis by (simp add: s)
qed

lemma reachable_mounted: "reachable s \<Longrightarrow> r \<in> set (inflight s) \<Longrightarrow> mounted s"
  using reachable_invariant [of s] by (auto simp: invariant_def requests_ok_def)

lemma reachable_settled:
  "reachable s \<Longrightarrow> r \<in> set (inflight s) \<Longrightarrow> effect_deps s = Some (length (orders s))"
  using reachable_mounted reachable_effect_deps by blast

section \<open>The order store\<close>

text \<open>
  Claim C5. When the request of a load fails, the step is taken like any other (the
  rejection is caught: the result is a state, and nothing else can come out of the
  chain), the error is appended to what \<^verbatim>\<open>console.error\<close> received, the store's error is
  the fixed message and not the error's own text, and no new request is issued.
\<close>

theorem load_failure_caught_logged_no_retry:
  assumes "reachable s" and "r \<in> set (inflight s)"
  shows "\<exists>s'. step (Settle r (Rejected err)) s = Some s' \<and>
           error s' = Some ''Failed to load orders'' \<and>
           console s' = console s @ [err] \<and>
           issued s' = issued s \<and>
           inflight s' = removeAll r (inflight s)"
proof -
  have d: "effect_deps s = Some (length (orders s))"
    using assms by (rule reachable_settled)
  show ?thesis
    using assms(2) d
    by (simp add: render_keeps render_issued render_inflight onFinally_def onRejected_def)
qed

theorem load_failure_caught_logged_no_retry_witness:
  "case run [Mount] initial of
     None \<Rightarrow> False
   | Some s \<Rightarrow>
       0 \<in> set (inflight s) \<and>
       (\<exists>s'. step (Settle 0 (Rejected ''boom'')) s = Some s' \<and>
          error s' = Some ''Failed to load orders'' \<and>
          console s' = console s @ [''boom''] \<and>
          issued s' = issued s \<and>
          inflight s' = removeAll 0 (inflight s))"
proof (rule run_witness)
  show "run [Mount] initial \<noteq> None" by code_simp
next
  fix s assume r: "reachable s" and s: "run [Mount] initial = Some s"
  have "map_option inflight (run [Mount] initial) = Some [0]" by code_simp
  from this [unfolded s] have i: "0 \<in> set (inflight s)" by simp
  show "0 \<in> set (inflight s) \<and>
       (\<exists>s'. step (Settle 0 (Rejected ''boom'')) s = Some s' \<and>
          error s' = Some ''Failed to load orders'' \<and>
          console s' = console s @ [''boom''] \<and>
          issued s' = issued s \<and>
          inflight s' = removeAll 0 (inflight s))"
    using i load_failure_caught_logged_no_retry [OF r i, of "''boom''"] by blast
qed

text \<open>
  Claim C10. A load that fails leaves the orders as they were: the same list, and the
  same array.
\<close>

theorem failed_load_keeps_orders:
  assumes "step (Settle r (Rejected err)) s = Some s'"
  shows "orders s' = orders s \<and> orders_ref s' = orders_ref s"
  using assms
  by (auto simp: render_keeps onFinally_def onRejected_def split: if_splits)

theorem failed_load_keeps_orders_witness:
  "case run [Mount, Settle 0 (Fulfilled [alice, bob])] initial of
     None \<Rightarrow> False
   | Some s \<Rightarrow>
       orders s = [alice, bob] \<and>
       (case step (Settle 1 (Rejected ''boom'')) s of
          None \<Rightarrow> False
        | Some s' \<Rightarrow> orders s' = orders s \<and> orders_ref s' = orders_ref s)"
proof (rule run_witness)
  show "run [Mount, Settle 0 (Fulfilled [alice, bob])] initial \<noteq> None" by code_simp
next
  fix s assume s: "run [Mount, Settle 0 (Fulfilled [alice, bob])] initial = Some s"
  have "map_option orders (run [Mount, Settle 0 (Fulfilled [alice, bob])] initial) =
        Some [alice, bob]"
    by code_simp
  from this [unfolded s] have o: "orders s = [alice, bob]" by simp
  have "map_option inflight (run [Mount, Settle 0 (Fulfilled [alice, bob])] initial) = Some [1]"
    by code_simp
  from this [unfolded s] have "1 \<in> set (inflight s)" by simp
  then obtain s' where s': "step (Settle 1 (Rejected ''boom'')) s = Some s'" by simp
  show "orders s = [alice, bob] \<and>
       (case step (Settle 1 (Rejected ''boom'')) s of
          None \<Rightarrow> False
        | Some s' \<Rightarrow> orders s' = orders s \<and> orders_ref s' = orders_ref s)"
    unfolding s' using o failed_load_keeps_orders [OF s'] by simp
qed

text \<open>
  Claim C8, as the code has it. A load that succeeds leaves the store with the fetched
  orders and no error, whatever the error was before, and the callbacks of its chain end
  with \<^verbatim>\<open>loading\<close> false. The render that follows starts the next load exactly when the
  number of orders has changed: after the step \<^verbatim>\<open>loading\<close> is true in that case and false
  otherwise, so the store is Ready only when the number of orders is unchanged.
\<close>

theorem successful_load_sets_orders_and_reloads:
  assumes "reachable s" and "r \<in> set (inflight s)"
  shows "orders (settle (Fulfilled data) (s\<lparr>inflight := removeAll r (inflight s)\<rparr>)) = data \<and>
         error (settle (Fulfilled data) (s\<lparr>inflight := removeAll r (inflight s)\<rparr>)) = None \<and>
         \<not> loading (settle (Fulfilled data) (s\<lparr>inflight := removeAll r (inflight s)\<rparr>)) \<and>
         (\<exists>s'. step (Settle r (Fulfilled data)) s = Some s' \<and> orders s' = data \<and>
            error s' = None \<and> (loading s' \<longleftrightarrow> length data \<noteq> length (orders s)))"
proof -
  have d: "effect_deps s = Some (length (orders s))"
    using assms by (rule reachable_settled)
  show ?thesis
    using assms(2) d
    by (auto simp: render_keeps render_loading onFinally_def onFulfilled_def)
qed

theorem successful_load_sets_orders_and_reloads_witness:
  "case run [Mount, Settle 0 (Rejected ''boom''), Refresh] initial of
     None \<Rightarrow> False
   | Some s \<Rightarrow>
       error s = Some ''Failed to load orders'' \<and> orders s = [] \<and>
       (\<exists>s'. step (Settle 1 (Fulfilled [alice])) s = Some s' \<and> orders s' = [alice] \<and>
          error s' = None \<and> loading s')"
proof (rule run_witness)
  show "run [Mount, Settle 0 (Rejected ''boom''), Refresh] initial \<noteq> None" by code_simp
next
  fix s assume r: "reachable s"
    and s: "run [Mount, Settle 0 (Rejected ''boom''), Refresh] initial = Some s"
  have "map_option error (run [Mount, Settle 0 (Rejected ''boom''), Refresh] initial) =
        Some (Some ''Failed to load orders'')"
    by code_simp
  from this [unfolded s] have e: "error s = Some ''Failed to load orders''" by simp
  have "map_option orders (run [Mount, Settle 0 (Rejected ''boom''), Refresh] initial) =
        Some []"
    by code_simp
  from this [unfolded s] have o: "orders s = []" by simp
  have "map_option inflight (run [Mount, Settle 0 (Rejected ''boom''), Refresh] initial) =
        Some [1]"
    by code_simp
  from this [unfolded s] have i: "1 \<in> set (inflight s)" by simp
  have l: "length [alice] \<noteq> length (orders s)" by (simp add: o)
  show "error s = Some ''Failed to load orders'' \<and> orders s = [] \<and>
       (\<exists>s'. step (Settle 1 (Fulfilled [alice])) s = Some s' \<and> orders s' = [alice] \<and>
          error s' = None \<and> loading s')"
    using e o l successful_load_sets_orders_and_reloads [OF r i, of "[alice]"] by blast
qed

theorem successful_load_leaves_loading:
  "map_option orders (run [Mount, Settle 0 (Fulfilled [alice])] initial) = Some [alice] \<and>
   map_option error (run [Mount, Settle 0 (Fulfilled [alice])] initial) = Some None \<and>
   map_option loading (run [Mount, Settle 0 (Fulfilled [alice])] initial) = Some True"
  by code_simp

lemma handleMinTotalChange_keeps:
  "inflight (handleMinTotalChange v s) = inflight s \<and>
   issued (handleMinTotalChange v s) = issued s \<and>
   orders (handleMinTotalChange v s) = orders s \<and>
   effect_deps (handleMinTotalChange v s) = effect_deps s"
  by (simp add: handleMinTotalChange_def)

lemma render_inflight_mono: "i \<in> set (inflight s) \<Longrightarrow> i \<in> set (inflight (render s))"
  by (simp add: render_inflight)

lemma step_keeps_inflight:
  assumes "step e s = Some s'" and "i \<in> set (inflight s)" and "\<forall>outcome. e \<noteq> Settle i outcome"
  shows "i \<in> set (inflight s')"
proof (cases e)
  case (Settle r outcome)
  with assms(3) have "r \<noteq> i" by auto
  then have "i \<in> set (inflight (settle outcome (s\<lparr>inflight := removeAll r (inflight s)\<rparr>)))"
    using assms(2) by (simp add: settle_keeps)
  then show ?thesis
    using assms(1) Settle by (auto simp: render_inflight_mono split: if_splits)
next
  case Refresh
  have "i \<in> set (inflight (fetchOrders s))" using assms(2) by (simp add: fetchOrders_def)
  then show ?thesis
    using assms(1) Refresh by (auto simp: render_inflight_mono split: if_splits)
next
  case (ChangeMinTotal v)
  have "i \<in> set (inflight (handleMinTotalChange v s))"
    using assms(2) by (simp add: handleMinTotalChange_keeps)
  then show ?thesis
    using assms(1) ChangeMinTotal by (auto simp: render_inflight_mono split: if_splits)
qed (use assms in \<open>auto simp: render_inflight split: if_splits\<close>)

text \<open>
  Claim C9. With two loads in flight, let the one with number \<open>j\<close> settle first and the
  one with number \<open>i\<close> last. Both steps can be taken, the store ends with what the load
  \<open>i\<close> brought (its orders, or the error message), whichever of the two was issued first.
  No step other than its own settling takes a request out of flight, and \<^verbatim>\<open>fetchOrders\<close>
  keeps every request that is in flight.
\<close>

theorem last_settled_load_wins:
  assumes "i \<in> set (inflight s)" and "j \<in> set (inflight s)" and "i \<noteq> j"
  shows "\<exists>s1 s2. step (Settle j out_j) s = Some s1 \<and> i \<in> set (inflight s1) \<and>
           step (Settle i out_i) s1 = Some s2 \<and>
           (case out_i of
              Fulfilled data \<Rightarrow> orders s2 = data \<and> error s2 = None
            | Rejected err \<Rightarrow>
                orders s2 = orders s1 \<and> error s2 = Some ''Failed to load orders'') \<and>
           set (inflight s) \<subseteq> set (inflight (fetchOrders s)) \<and>
           (\<forall>e s'. step e s = Some s' \<and> (\<forall>outcome. e \<noteq> Settle i outcome) \<longrightarrow>
              i \<in> set (inflight s'))"
proof -
  obtain s1 where s1: "step (Settle j out_j) s = Some s1" using assms(2) by simp
  have "\<forall>outcome. Settle j out_j \<noteq> Settle i outcome" using assms(3) by simp
  then have i1: "i \<in> set (inflight s1)"
    using step_keeps_inflight [OF s1 assms(1)] by blast
  then obtain s2 where s2: "step (Settle i out_i) s1 = Some s2" by simp
  have w: "case out_i of
              Fulfilled data \<Rightarrow> orders s2 = data \<and> error s2 = None
            | Rejected err \<Rightarrow>
                orders s2 = orders s1 \<and> error s2 = Some ''Failed to load orders''"
    using s2 i1
    by (cases out_i) (auto simp: render_keeps onFinally_def onFulfilled_def onRejected_def)
  have f: "set (inflight s) \<subseteq> set (inflight (fetchOrders s))"
    by (auto simp: fetchOrders_def)
  have k: "\<forall>e s'. step e s = Some s' \<and> (\<forall>outcome. e \<noteq> Settle i outcome) \<longrightarrow>
              i \<in> set (inflight s')"
    using step_keeps_inflight [OF _ assms(1)] by blast
  show ?thesis using s1 i1 s2 w f k by blast
qed

theorem last_settled_load_wins_witness:
  "case run [Mount, Refresh] initial of
     None \<Rightarrow> False
   | Some s \<Rightarrow>
       inflight s = [0, 1] \<and>
       (\<exists>s1 s2. step (Settle 1 (Fulfilled [bob])) s = Some s1 \<and> 0 \<in> set (inflight s1) \<and>
          step (Settle 0 (Fulfilled [alice])) s1 = Some s2 \<and> orders s2 = [alice] \<and>
          error s2 = None)"
proof (rule run_witness)
  show "run [Mount, Refresh] initial \<noteq> None" by code_simp
next
  fix s assume s: "run [Mount, Refresh] initial = Some s"
  have "map_option inflight (run [Mount, Refresh] initial) = Some [0, 1]" by code_simp
  from this [unfolded s] have i: "inflight s = [0, 1]" by simp
  have m0: "0 \<in> set (inflight s)" and m1: "1 \<in> set (inflight s)" by (simp_all add: i)
  have ne: "(0::nat) \<noteq> 1" by simp
  show "inflight s = [0, 1] \<and>
       (\<exists>s1 s2. step (Settle 1 (Fulfilled [bob])) s = Some s1 \<and> 0 \<in> set (inflight s1) \<and>
          step (Settle 0 (Fulfilled [alice])) s1 = Some s2 \<and> orders s2 = [alice] \<and>
          error s2 = None)"
    using i last_settled_load_wins [OF m0 m1 ne, of "Fulfilled [bob]" "Fulfilled [alice]"]
    by (simp only: Outcome.case) blast
qed

lemma step_error:
  assumes "step e s = Some s'"
  shows "error s' =
           (case e of
              Settle r outcome \<Rightarrow>
                (case outcome of
                   Fulfilled data \<Rightarrow> None
                 | Rejected err \<Rightarrow> Some ''Failed to load orders'')
            | _ \<Rightarrow> error s)"
proof (cases e)
  case (Settle r outcome)
  with assms show ?thesis
    by (cases outcome)
       (auto simp: render_keeps onFinally_def onFulfilled_def onRejected_def split: if_splits)
next
  case (ChangeMinTotal v)
  with assms show ?thesis
    by (auto simp: render_keeps handleMinTotalChange_def split: if_splits)
qed (use assms in \<open>auto simp: render_keeps fetchOrders_def split: if_splits\<close>)

lemma step_Refresh_loading:
  assumes "step Refresh s = Some s'"
  shows "loading s'"
  using assms by (auto simp: render_loading fetchOrders_def split: if_splits)

text \<open>
  Claim C6, as the code has it. The store is three independent cells, not one of four
  states. A refresh sets \<^verbatim>\<open>loading\<close> and leaves the error as it is, so after a failed load
  the store is loading and failed at once. An error message that is set is removed by
  a load that succeeds and by nothing else: a load that fails sets it again, every other
  event leaves it as it is. In every reachable state \<^verbatim>\<open>loading\<close> is true only while a
  request is in flight, the error is unset or the fixed message, and it is set only
  after a failure was logged.
\<close>

theorem loading_and_error_flags:
  assumes "reachable s"
  shows "(loading s \<longrightarrow> inflight s \<noteq> []) \<and>
         (error s = None \<or> error s = Some ''Failed to load orders'') \<and>
         (error s \<noteq> None \<longrightarrow> console s \<noteq> []) \<and>
         (\<forall>s'. step Refresh s = Some s' \<longrightarrow> loading s' \<and> error s' = error s) \<and>
         (\<forall>r data s'. step (Settle r (Fulfilled data)) s = Some s' \<longrightarrow> error s' = None) \<and>
         (\<forall>r err s'. step (Settle r (Rejected err)) s = Some s' \<longrightarrow>
            error s' = Some ''Failed to load orders'') \<and>
         (\<forall>e s'. step e s = Some s' \<and> (\<forall>r outcome. e \<noteq> Settle r outcome) \<longrightarrow>
            error s' = error s)"
proof -
  have inv: "(loading s \<longrightarrow> inflight s \<noteq> []) \<and>
         (error s = None \<or> error s = Some ''Failed to load orders'') \<and>
         (error s \<noteq> None \<longrightarrow> console s \<noteq> [])"
    using reachable_invariant [OF assms] by (simp add: invariant_def flags_ok_def)
  have rf: "\<forall>s'. step Refresh s = Some s' \<longrightarrow> loading s' \<and> error s' = error s"
    using step_Refresh_loading step_error [of Refresh s] by auto
  have ok: "\<forall>r data s'. step (Settle r (Fulfilled data)) s = Some s' \<longrightarrow> error s' = None"
    using step_error [of "Settle r (Fulfilled data)" s for r data] by auto
  have ko: "\<forall>r err s'. step (Settle r (Rejected err)) s = Some s' \<longrightarrow>
            error s' = Some ''Failed to load orders''"
    using step_error [of "Settle r (Rejected err)" s for r err] by auto
  have other: "\<forall>e s'. step e s = Some s' \<and> (\<forall>r outcome. e \<noteq> Settle r outcome) \<longrightarrow>
            error s' = error s"
  proof (intro allI impI)
    fix e s' assume a: "step e s = Some s' \<and> (\<forall>r outcome. e \<noteq> Settle r outcome)"
    then show "error s' = error s"
      using step_error [of e s s'] by (cases e) auto
  qed
  show ?thesis using inv rf ok ko other by blast
qed

theorem loading_and_error_flags_witness:
  "case run [Mount, Settle 0 (Rejected ''boom'')] initial of
     None \<Rightarrow> False
   | Some s \<Rightarrow>
       \<not> loading s \<and> error s = Some ''Failed to load orders'' \<and> console s \<noteq> [] \<and>
       (case step Refresh s of
          None \<Rightarrow> False
        | Some s' \<Rightarrow> loading s' \<and> error s' = Some ''Failed to load orders'')"
proof (rule run_witness)
  show "run [Mount, Settle 0 (Rejected ''boom'')] initial \<noteq> None" by code_simp
next
  fix s assume r: "reachable s"
    and s: "run [Mount, Settle 0 (Rejected ''boom'')] initial = Some s"
  have "map_option loading (run [Mount, Settle 0 (Rejected ''boom'')] initial) = Some False"
    by code_simp
  from this [unfolded s] have l: "\<not> loading s" by simp
  have "map_option error (run [Mount, Settle 0 (Rejected ''boom'')] initial) =
        Some (Some ''Failed to load orders'')"
    by code_simp
  from this [unfolded s] have e: "error s = Some ''Failed to load orders''" by simp
  have "map_option mounted (run [Mount, Settle 0 (Rejected ''boom'')] initial) = Some True"
    by code_simp
  from this [unfolded s] have "mounted s" by simp
  then obtain s' where s': "step Refresh s = Some s'" by simp
  note f = loading_and_error_flags [OF r]
  have c: "console s \<noteq> []" using f e by simp
  have "loading s' \<and> error s' = error s" using f s' by blast
  then show "\<not> loading s \<and> error s = Some ''Failed to load orders'' \<and> console s \<noteq> [] \<and>
       (case step Refresh s of
          None \<Rightarrow> False
        | Some s' \<Rightarrow> loading s' \<and> error s' = Some ''Failed to load orders'')"
    unfolding s' using l e c by simp
qed

theorem loading_while_failed:
  "map_option loading (run [Mount, Settle 0 (Rejected ''boom''), Refresh] initial) = Some True \<and>
   map_option error (run [Mount, Settle 0 (Rejected ''boom''), Refresh] initial) =
     Some (Some ''Failed to load orders'')"
  by code_simp

text \<open>
  Claim C7, as the code has it. The effect is keyed on \<^verbatim>\<open>orders.length\<close> (``refetch
  whenever the number of orders changes''), so a successful load that changes the
  number of orders issues the next load by itself. A
  step issues at most one request, and it issues one exactly when it is the mount, a
  call of \<^verbatim>\<open>refresh()\<close>, or a successful load that changes the number of orders; a change
  of the criteria, and so of the size of the derived view, issues none.
\<close>

theorem load_issued_iff_mount_refresh_or_length_change:
  assumes "reachable s" and "step e s = Some s'"
  shows "(issued s' = issued s \<or> issued s' = Suc (issued s)) \<and>
         (issued s' \<noteq> issued s \<longleftrightarrow>
            e = Mount \<or> e = Refresh \<or>
            (\<exists>r data. e = Settle r (Fulfilled data) \<and> length data \<noteq> length (orders s)))"
proof (cases e)
  case Mount
  with assms(2) show ?thesis
    by (auto simp: render_issued mounted_def split: if_splits)
next
  case Refresh
  with assms(2) have m: "mounted s" by (auto split: if_splits)
  have "effect_deps s = Some (length (orders s))"
    using assms(1) m by (rule reachable_effect_deps)
  with assms(2) Refresh show ?thesis
    by (auto simp: render_issued fetchOrders_def split: if_splits)
next
  case (Settle r outcome)
  with assms(2) have i: "r \<in> set (inflight s)" by (auto split: if_splits)
  have d: "effect_deps s = Some (length (orders s))"
    using assms(1) i by (rule reachable_settled)
  show ?thesis
    using assms(2) Settle d
    by (cases outcome)
       (auto simp: render_issued onFinally_def onFulfilled_def onRejected_def split: if_splits)
next
  case (ChangeSearch v)
  with assms(2) have m: "mounted s" by (auto split: if_splits)
  have "effect_deps s = Some (length (orders s))"
    using assms(1) m by (rule reachable_effect_deps)
  with assms(2) ChangeSearch show ?thesis
    by (auto simp: render_issued split: if_splits)
next
  case (ChangeStatusFilter f)
  with assms(2) have m: "mounted s" by (auto split: if_splits)
  have "effect_deps s = Some (length (orders s))"
    using assms(1) m by (rule reachable_effect_deps)
  with assms(2) ChangeStatusFilter show ?thesis
    by (auto simp: render_issued split: if_splits)
next
  case (ChangeMinTotal v)
  with assms(2) have m: "mounted s" by (auto split: if_splits)
  have "effect_deps s = Some (length (orders s))"
    using assms(1) m by (rule reachable_effect_deps)
  with assms(2) ChangeMinTotal show ?thesis
    by (auto simp: render_issued handleMinTotalChange_keeps split: if_splits)
qed

theorem load_issued_iff_mount_refresh_or_length_change_witness:
  "case run [Mount] initial of
     None \<Rightarrow> False
   | Some s \<Rightarrow>
       (case step (Settle 0 (Fulfilled [alice])) s of
          None \<Rightarrow> False
        | Some s' \<Rightarrow> orders s = [] \<and> issued s' = Suc (issued s))"
proof (rule run_witness)
  show "run [Mount] initial \<noteq> None" by code_simp
next
  fix s assume r: "reachable s" and s: "run [Mount] initial = Some s"
  have "map_option orders (run [Mount] initial) = Some []" by code_simp
  from this [unfolded s] have o: "orders s = []" by simp
  have "map_option inflight (run [Mount] initial) = Some [0]" by code_simp
  from this [unfolded s] have "0 \<in> set (inflight s)" by simp
  then obtain s' where s': "step (Settle 0 (Fulfilled [alice])) s = Some s'" by simp
  have "length [alice] \<noteq> length (orders s)" by (simp add: o)
  then have "issued s' = Suc (issued s)"
    using load_issued_iff_mount_refresh_or_length_change [OF r s'] by blast
  then show "case step (Settle 0 (Fulfilled [alice])) s of
          None \<Rightarrow> False
        | Some s' \<Rightarrow> orders s = [] \<and> issued s' = Suc (issued s)"
    unfolding s' using o by simp
qed

theorem load_issued_without_refresh:
  "map_option issued (run [Mount] initial) = Some 1 \<and>
   map_option issued (run [Mount, Settle 0 (Fulfilled [alice])] initial) = Some 2"
  by code_simp

section \<open>The derived view\<close>



text \<open>
  Claim C2 fails on the code. The first memo depends on \<^verbatim>\<open>[orders]\<close> alone, although its
  callback reads \<^verbatim>\<open>search\<close>, \<^verbatim>\<open>statusFilter\<close> and \<^verbatim>\<open>minTotal\<close>: after the two orders are loaded
  and the status filter is set to \<^verbatim>\<open>paid\<close>, the view still shows both orders and the
  revenue 30, where the pipeline on the current orders and criteria gives \<open>alice\<close> alone.
\<close>

theorem stale_view_after_status_change:
  "map_option orders
     (run [Mount, Settle 0 (Fulfilled [alice, bob]), ChangeStatusFilter (Only paid)] initial) =
     Some [alice, bob] \<and>
   map_option statusFilter
     (run [Mount, Settle 0 (Fulfilled [alice, bob]), ChangeStatusFilter (Only paid)] initial) =
     Some (Only paid) \<and>
   map_option filteredOrders
     (run [Mount, Settle 0 (Fulfilled [alice, bob]), ChangeStatusFilter (Only paid)] initial) =
     Some [bob, alice] \<and>
   map_option totalRevenue
     (run [Mount, Settle 0 (Fulfilled [alice, bob]), ChangeStatusFilter (Only paid)] initial) =
     Some (Finite 30) \<and>
   computeFilteredOrders [alice, bob] None (Only paid) (Str []) = [alice]"
  by code_simp

text \<open>
  Claim C3 fails on the code. The comparator never returns 0: for two orders with the
  same \<^verbatim>\<open>createdAt\<close> it answers 1 in both directions, each ``after'' the other. (The
  insertion sort of the model, which looks at the sign only, then leaves such orders in
  their input order.)
\<close>

theorem sortCallback_never_zero:
  "sortCallback a b \<noteq> 0 \<and>
   createdAt alice = createdAt carol \<and>
   sortCallback alice carol = 1 \<and> sortCallback carol alice = 1 \<and>
   array_sort sortCallback [alice, carol] = [alice, carol] \<and>
   array_sort sortCallback [carol, alice] = [carol, alice]"
proof -
  have "sortCallback a b \<noteq> 0" by (simp add: sortCallback_def)
  moreover have "createdAt alice = createdAt carol" by (simp add: alice_def carol_def)
  moreover have "sortCallback alice carol = 1" by code_simp
  moreover have "sortCallback carol alice = 1" by code_simp
  moreover have "array_sort sortCallback [alice, carol] = [alice, carol]" by code_simp
  moreover have "array_sort sortCallback [carol, alice] = [carol, alice]" by code_simp
  ultimately show ?thesis by blast
qed

text \<open>
  The stored \<^verbatim>\<open>minTotal\<close> of every reachable state stands for an optional number:
  \<^verbatim>\<open>handleMinTotalChange\<close> stores a text only when it is empty or \<^verbatim>\<open>Number\<close> reads it as a
  number.
\<close>

lemma reachable_minTotal_reads_as_number: "reachable s \<Longrightarrow> \<not> isNaN (Number (minTotal s))"
  using reachable_invariant [of s] by (simp add: invariant_def criteria_ok_def)

lemma reachable_minTotal_reads:
  assumes "reachable s"
  shows "\<exists>least. reads_as (minTotal s) least"
proof (cases "minTotal s")
  case (Num n)
  then have "n \<noteq> NaN"
    using reachable_minTotal_reads_as_number [OF assms] by (auto simp: isNaN_iff)
  then show ?thesis
    using Num number_unset [of n] number_set [of n] by (cases "n = Finite 0") auto
next
  case (Str t)
  then show ?thesis
    using reachable_minTotal_reads_as_number [OF assms] text_empty text_other [of t]
    by (cases "t = []") auto
qed

text \<open>Scenarios A to D of the specification, computed by the pipeline.\<close>

lemma scenarios:
  "computeFilteredOrders [alice, bob] None AllStatuses (Str []) = [bob, alice]"
  "computeTotalRevenue (computeFilteredOrders [alice, bob] None AllStatuses (Str [])) = Finite 30"
  "computeFilteredOrders [alice, bob] None (Only paid) (Str []) = [alice]"
  "computeFilteredOrders [alice, bob] (Some ''bo'') AllStatuses (Str []) = [bob]"
  "computeFilteredOrders [alice, bob] None AllStatuses (Str ''15'') = [bob]"
  by code_simp+

end
